theory Spec2Isabelle
  imports Main "HOL-Library.AList"
begin

section \<open>JavaScript values held by the list cache\<close>

text \<open>
  The cache stores server responses, which are JSON-like values. An object is an
  association list in insertion order; its keys are looked up first-match and updated in
  place, as property assignment and object spread do. Numbers are the integers: the only
  numbers the code computes with are a status code, an item count and a total, all exact
  in a double below \<open>2^53\<close>; NaN, infinities and fractions are outside the model.
  Values are immutable here, so a snapshot taken before a write cannot be changed by it
  (the source never mutates a cached value in place either: \<open>filter\<close> and spread build
  new ones).
\<close>

datatype jsval =
    JUndefined
  | JNull
  | JBool bool
  | JNum int
  | JStr string
  | JArr "jsval list"
  | JObj "(string \<times> jsval) list"

text \<open>Truthiness, as tested by \<open>!value\<close>, \<open>a && b\<close> and \<open>if (value)\<close>.\<close>

fun js_truthy :: "jsval \<Rightarrow> bool" where
  "js_truthy JUndefined = False"
| "js_truthy JNull = False"
| "js_truthy (JBool b) = b"
| "js_truthy (JNum n) = (n \<noteq> 0)"
| "js_truthy (JStr s) = (s \<noteq> [])"
| "js_truthy (JArr xs) = True"
| "js_truthy (JObj fs) = True"

fun js_typeof :: "jsval \<Rightarrow> string" where
  "js_typeof JUndefined = ''undefined''"
| "js_typeof JNull = ''object''"
| "js_typeof (JBool b) = ''boolean''"
| "js_typeof (JNum n) = ''number''"
| "js_typeof (JStr s) = ''string''"
| "js_typeof (JArr xs) = ''object''"
| "js_typeof (JObj fs) = ''object''"

fun isArray :: "jsval \<Rightarrow> bool" where
  "isArray (JArr xs) = True"
| "isArray v = False"

text \<open>
  Reading one of the properties \<open>status\<close>, \<open>data\<close>, \<open>items\<close>, \<open>total\<close>: an object
  yields the stored value or \<open>undefined\<close>; arrays and primitives have no such property.
  The source reads a property only from a value it has tested to be truthy, so the
  TypeError of reading from \<open>undefined\<close> or \<open>null\<close> cannot arise.
\<close>

fun get_prop :: "jsval \<Rightarrow> string \<Rightarrow> jsval" where
  "get_prop (JObj fs) k = (case map_of fs k of None \<Rightarrow> JUndefined | Some v \<Rightarrow> v)"
| "get_prop v k = JUndefined"

text \<open>
  The own enumerable properties copied by \<open>{...value}\<close>. The source spreads only values
  that passed the object tests below, which are objects in this model.
\<close>

fun spread :: "jsval \<Rightarrow> (string \<times> jsval) list" where
  "spread (JObj fs) = fs"
| "spread v = []"

text \<open>The elements of a value narrowed to an array, and the integer of one narrowed to a number.\<close>

fun array_elems :: "jsval \<Rightarrow> jsval list" where
  "array_elems (JArr xs) = xs"
| "array_elems v = []"

fun number_value :: "jsval \<Rightarrow> int" where
  "number_value (JNum n) = n"
| "number_value v = 0"

section \<open>The query client\<close>

text \<open>
  The client is the store of cache entries by query key together with the sequence of
  calls made on it, so that "no write occurred" and "invalidated once" can be stated.
  What \<open>cancelQueries\<close> and \<open>invalidateQueries\<close> do inside the library (aborting a
  fetch, marking entries stale) is not modelled beyond the call itself.
\<close>

datatype 'k client_call =
    CancelQueries 'k
  | SetQueryData 'k jsval
  | InvalidateQueries 'k

record 'k query_client =
  entries :: "'k \<rightharpoonup> jsval"
  calls :: "'k client_call list"

definition getQueryData :: "'k query_client \<Rightarrow> 'k \<Rightarrow> jsval" where
  "getQueryData qc key = (case entries qc key of None \<Rightarrow> JUndefined | Some v \<Rightarrow> v)"

definition setQueryData :: "'k \<Rightarrow> jsval \<Rightarrow> 'k query_client \<Rightarrow> 'k query_client" where
  "setQueryData key v qc =
     qc\<lparr>entries := (entries qc)(key \<mapsto> v), calls := calls qc @ [SetQueryData key v]\<rparr>"

definition cancelQueries :: "'k \<Rightarrow> 'k query_client \<Rightarrow> 'k query_client" where
  "cancelQueries key qc = qc\<lparr>calls := calls qc @ [CancelQueries key]\<rparr>"

definition invalidateQueries :: "'k \<Rightarrow> 'k query_client \<Rightarrow> 'k query_client" where
  "invalidateQueries key qc = qc\<lparr>calls := calls qc @ [InvalidateQueries key]\<rparr>"

section \<open>list-delete.ts\<close>

definition isListPayload :: "jsval \<Rightarrow> bool" where
  "isListPayload v =
     (if \<not> js_truthy v \<or> js_typeof v \<noteq> ''object'' then False
      else isArray (get_prop v ''items'') \<and> js_typeof (get_prop v ''total'') = ''number'')"

definition getListPayload :: "jsval \<Rightarrow> jsval option" where
  "getListPayload response =
     (if \<not> js_truthy response \<or> js_typeof response \<noteq> ''object'' then None
      else let data = get_prop response ''data''
           in if isListPayload data then Some data else None)"

record ('k, 'v) delete_options =
  queryKey :: 'k
  getItemId :: "jsval \<Rightarrow> string"
  getDeleteId :: "'v \<Rightarrow> string"
  invalidateQueryKeys :: "'k list option"

record delete_context =
  previous :: jsval

definition keysToInvalidate :: "('k, 'v) delete_options \<Rightarrow> 'k list" where
  "keysToInvalidate opts =
     (case invalidateQueryKeys opts of
        None \<Rightarrow> [queryKey opts]
      | Some ks \<Rightarrow> if length ks > 0 then ks else [queryKey opts])"

definition onMutate ::
  "('k, 'v) delete_options \<Rightarrow> 'v \<Rightarrow> 'k query_client \<Rightarrow> delete_context \<times> 'k query_client" where
  "onMutate opts variables qc0 =
     (let qc = cancelQueries (queryKey opts) qc0;
          prev = getQueryData qc (queryKey opts)
      in if js_truthy prev \<and> get_prop prev ''status'' = JNum 200 then
           (case getListPayload prev of
              None \<Rightarrow> (\<lparr>previous = prev\<rparr>, qc)
            | Some payload \<Rightarrow>
                let deleteId = getDeleteId opts variables;
                    items = array_elems (get_prop payload ''items'');
                    nextItems = filter (\<lambda>item. getItemId opts item \<noteq> deleteId) items;
                    removedCount = int (length items) - int (length nextItems);
                    total = max 0 (number_value (get_prop payload ''total'') - removedCount);
                    data = JObj (AList.update ''total'' (JNum total)
                                  (AList.update ''items'' (JArr nextItems) (spread payload)))
                in (\<lparr>previous = prev\<rparr>,
                    setQueryData (queryKey opts)
                      (JObj (AList.update ''data'' data (spread prev))) qc))
         else (\<lparr>previous = prev\<rparr>, qc))"

text \<open>
  \<open>onError\<close> ignores the error and the variables; \<open>context\<close> may be undefined
  (\<open>None\<close>), and \<open>context?.previous\<close> is tested for truthiness.
\<close>

definition onError ::
  "('k, 'v) delete_options \<Rightarrow> delete_context option \<Rightarrow> 'k query_client \<Rightarrow> 'k query_client" where
  "onError opts context qc =
     (case context of
        None \<Rightarrow> qc
      | Some ctx \<Rightarrow>
          if js_truthy (previous ctx) then setQueryData (queryKey opts) (previous ctx) qc
          else qc)"

definition onSettled :: "('k, 'v) delete_options \<Rightarrow> 'k query_client \<Rightarrow> 'k query_client" where
  "onSettled opts qc = foldl (\<lambda>c key. invalidateQueries key c) qc (keysToInvalidate opts)"

section \<open>URLSearchParams\<close>

text \<open>
  The platform's \<open>URLSearchParams\<close>, after the URL standard's
  \<open>application/x-www-form-urlencoded\<close> parser and serializer and the Encoding
  standard's UTF-8 decoder. The text of a query string and of a path is a byte list
  (\<open>string\<close>). The names and values of parameters, and the strings the hook is
  configured with, are scalar value strings (the interface's \<open>USVString\<close>), held as
  their UTF-8 bytes in the type \<open>ustring\<close>; a JavaScript string with a lone surrogate
  is not one of them. The parameters are an ordered list of (name, value) pairs,
  duplicates allowed; the methods \<open>get\<close>, \<open>getAll\<close>, \<open>set\<close>, \<open>delete\<close> and
  \<open>toString\<close> carry the prefix \<open>sp_\<close>.
\<close>

definition is_hex_digit :: "char \<Rightarrow> bool" where
  "is_hex_digit c =
     (let n = (of_char c :: nat)
      in (48 \<le> n \<and> n \<le> 57) \<or> (65 \<le> n \<and> n \<le> 70) \<or> (97 \<le> n \<and> n \<le> 102))"

definition hex_value :: "char \<Rightarrow> nat" where
  "hex_value c =
     (let n = (of_char c :: nat)
      in if n \<le> 57 then n - 48 else if n \<le> 70 then n - 55 else n - 87)"

definition hex_digit :: "nat \<Rightarrow> char" where
  "hex_digit n = (if n < 10 then char_of (48 + n) else char_of (55 + n))"

text \<open>Percent-decoding: a \<open>%\<close> not followed by two hexadecimal digits stands for itself.\<close>

fun percent_decode :: "string \<Rightarrow> string" where
  "percent_decode (c # h # l # rest) =
     (if c = CHR ''%'' \<and> is_hex_digit h \<and> is_hex_digit l
      then char_of (hex_value h * 16 + hex_value l) # percent_decode rest
      else c # percent_decode (h # l # rest))"
| "percent_decode cs = cs"

subsection \<open>UTF-8 decode without BOM\<close>

text \<open>
  The decoder of the Encoding standard, on the UTF-8 form of its output: a well-formed
  sequence is passed on as it is, and each error yields U+FFFD, the bytes
  \<open>EF BF BD\<close>. A lead byte \<open>C2..DF\<close> needs one more byte, \<open>E0..EF\<close> two,
  \<open>F0..F4\<close> three; any other byte from \<open>80\<close> up is an error. The byte after the
  lead byte must lie between the lower boundary (\<open>A0\<close> after \<open>E0\<close>, \<open>90\<close> after
  \<open>F0\<close>, else \<open>80\<close>) and the upper boundary (\<open>9F\<close> after \<open>ED\<close>, \<open>8F\<close> after
  \<open>F4\<close>, else \<open>BF\<close>), the later ones between \<open>80\<close> and \<open>BF\<close>.
\<close>

definition replacement :: string where
  "replacement = [char_of (239 :: nat), char_of (191 :: nat), char_of (189 :: nat)]"

definition bytes_needed :: "nat \<Rightarrow> nat" where
  "bytes_needed n =
     (if 194 \<le> n \<and> n \<le> 223 then 1
      else if 224 \<le> n \<and> n \<le> 239 then 2
      else if 240 \<le> n \<and> n \<le> 244 then 3
      else 0)"

definition lower_boundary :: "nat \<Rightarrow> nat" where
  "lower_boundary n = (if n = 224 then 160 else if n = 240 then 144 else 128)"

definition upper_boundary :: "nat \<Rightarrow> nat" where
  "upper_boundary n = (if n = 237 then 159 else if n = 244 then 143 else 191)"

text \<open>
  Reading the \<open>k\<close> bytes still needed after the bytes \<open>seq\<close>: the complete sequence
  and the input after it, or an error and the input from the byte that did not fit,
  which is read again as the start of a sequence (at the end of the input, nothing).
\<close>

fun continuation :: "string \<Rightarrow> nat \<Rightarrow> nat \<Rightarrow> nat \<Rightarrow> string \<Rightarrow> string option \<times> string" where
  "continuation seq 0 lo hi rest = (Some seq, rest)"
| "continuation seq (Suc k) lo hi [] = (None, [])"
| "continuation seq (Suc k) lo hi (c # rest) =
     (if lo \<le> of_char c \<and> of_char c \<le> hi then continuation (seq @ [c]) k 128 191 rest
      else (None, c # rest))"

definition utf8_step :: "char \<Rightarrow> string \<Rightarrow> string option \<times> string" where
  "utf8_step b rest =
     (let n = (of_char b :: nat)
      in if n < 128 then (Some [b], rest)
         else if bytes_needed n = 0 then (None, rest)
         else continuation [b] (bytes_needed n) (lower_boundary n) (upper_boundary n) rest)"

function utf8_lossy :: "string \<Rightarrow> string" where
  "utf8_lossy [] = []"
| "utf8_lossy (b # rest) =
     (case fst (utf8_step b rest) of Some seq \<Rightarrow> seq | None \<Rightarrow> replacement)
     @ utf8_lossy (snd (utf8_step b rest))"
  by pat_completeness auto
termination
proof (relation "measure length")
  show "wf (measure length)" by simp
next
  fix b :: char and rest :: string
  have shorter: "length (snd (continuation seq k lo hi input)) \<le> length input"
    for seq k lo hi input
    by (induction seq k lo hi input rule: continuation.induct) (auto intro: le_SucI)
  have "length (snd (utf8_step b rest)) \<le> length rest"
    using shorter[of "[b]" _ _ _ rest] by (simp add: utf8_step_def Let_def)
  then show "(snd (utf8_step b rest), b # rest) \<in> measure length" by simp
qed

text \<open>
  A scalar value string is a byte list that the decoder leaves as it is. \<open>ustr\<close> is the
  decoder, \<open>bytes\<close> the UTF-8 encoder.
\<close>

typedef ustring = "{s :: string. utf8_lossy s = s}"
  morphisms bytes Abs_ustring
  by (rule exI[of _ "[]"]) simp

definition ustr :: "string \<Rightarrow> ustring" where
  "ustr s = Abs_ustring (utf8_lossy s)"

type_synonym search_params = "(ustring \<times> ustring) list"

subsection \<open>Parser and serializer\<close>

text \<open>A \<open>+\<close> stands for a space; then percent-decoding, then UTF-8 decoding.\<close>

definition form_decode :: "string \<Rightarrow> ustring" where
  "form_decode s = ustr (percent_decode (map (\<lambda>c. if c = CHR ''+'' then CHR '' '' else c) s))"

text \<open>
  The serializer leaves ASCII alphanumerics and \<open>* - . _\<close> alone, writes a space as
  \<open>+\<close> and percent-encodes every other byte of the UTF-8 form with upper-case digits.
\<close>

definition form_safe :: "char \<Rightarrow> bool" where
  "form_safe c =
     (let n = (of_char c :: nat)
      in (48 \<le> n \<and> n \<le> 57) \<or> (65 \<le> n \<and> n \<le> 90) \<or> (97 \<le> n \<and> n \<le> 122)
         \<or> n = 42 \<or> n = 45 \<or> n = 46 \<or> n = 95)"

definition encode_byte :: "char \<Rightarrow> string" where
  "encode_byte c =
     (if c = CHR '' '' then ''+''
      else if form_safe c then [c]
      else [CHR ''%'', hex_digit (of_char c div 16), hex_digit (of_char c mod 16)])"

definition form_encode :: "ustring \<Rightarrow> string" where
  "form_encode s = concat (map encode_byte (bytes s))"

text \<open>Splitting at every occurrence of a delimiter; \<open>acc\<close> is the current piece, reversed.\<close>

fun split_acc :: "char \<Rightarrow> string \<Rightarrow> string \<Rightarrow> string list" where
  "split_acc d acc [] = [rev acc]"
| "split_acc d acc (c # cs) =
     (if c = d then rev acc # split_acc d [] cs else split_acc d (c # acc) cs)"

definition parse_pair :: "string \<Rightarrow> ustring \<times> ustring" where
  "parse_pair piece =
     (let name = takeWhile (\<lambda>c. c \<noteq> CHR ''='') piece;
          rest = dropWhile (\<lambda>c. c \<noteq> CHR ''='') piece
      in (form_decode name, form_decode (case rest of [] \<Rightarrow> [] | e # v \<Rightarrow> v)))"

definition parse_query :: "string \<Rightarrow> search_params" where
  "parse_query s = map parse_pair (filter (\<lambda>piece. piece \<noteq> []) (split_acc CHR ''&'' [] s))"

text \<open>\<open>new URLSearchParams(init)\<close> drops one leading \<open>?\<close> before parsing.\<close>

definition strip_question :: "string \<Rightarrow> string" where
  "strip_question s = (case s of [] \<Rightarrow> [] | c # r \<Rightarrow> if c = CHR ''?'' then r else s)"

definition new_URLSearchParams :: "string \<Rightarrow> search_params" where
  "new_URLSearchParams init = parse_query (strip_question init)"

definition sp_get :: "search_params \<Rightarrow> ustring \<Rightarrow> ustring option" where
  "sp_get ps name = map_of ps name"

text \<open>\<open>getAll\<close>: every value stored under a name, in order.\<close>

definition sp_getAll :: "search_params \<Rightarrow> ustring \<Rightarrow> ustring list" where
  "sp_getAll ps name = map snd (filter (\<lambda>p. fst p = name) ps)"

definition sp_delete :: "search_params \<Rightarrow> ustring \<Rightarrow> search_params" where
  "sp_delete ps name = filter (\<lambda>p. fst p \<noteq> name) ps"

text \<open>
  \<open>set\<close> overwrites the first pair of that name where it stands and removes the later
  ones; a new name is appended.
\<close>

fun sp_set :: "search_params \<Rightarrow> ustring \<Rightarrow> ustring \<Rightarrow> search_params" where
  "sp_set [] name v = [(name, v)]"
| "sp_set (p # ps) name v =
     (if fst p = name then (name, v) # sp_delete ps name else p # sp_set ps name v)"

fun join_amp :: "string list \<Rightarrow> string" where
  "join_amp [] = []"
| "join_amp [x] = x"
| "join_amp (x # y # ys) = x @ CHR ''&'' # join_amp (y # ys)"

definition encode_pair :: "ustring \<times> ustring \<Rightarrow> string" where
  "encode_pair p = form_encode (fst p) @ CHR ''='' # form_encode (snd p)"

definition sp_toString :: "search_params \<Rightarrow> string" where
  "sp_toString ps = join_amp (map encode_pair ps)"

section \<open>use-url-sorting.ts\<close>

text \<open>
  A \<open>ColumnSort\<close> of the table library is \<open>{ id: string, desc: boolean }\<close>, so
  \<open>Boolean(sort.desc)\<close> is \<open>desc\<close> itself. An updater is the next value or a function
  of the old one, and \<open>functionalUpdate\<close> applies it. The field \<open>id\<close> is written
  \<open>id'\<close> here, \<open>id\<close> being the identity function.
\<close>

record column_sort =
  id' :: ustring
  desc :: bool

type_synonym sorting_state = "column_sort list"

datatype updater = Value sorting_state | Fn "sorting_state \<Rightarrow> sorting_state"

fun functionalUpdate :: "updater \<Rightarrow> sorting_state \<Rightarrow> sorting_state" where
  "functionalUpdate (Value v) input = v"
| "functionalUpdate (Fn f) input = f input"

definition SORT_NONE_SENTINEL :: ustring where
  "SORT_NONE_SENTINEL = ustr ''none''"

record sorting_options =
  allowedColumnIds :: "ustring list"
  defaultSorting :: "sorting_state option"
  paramPrefix :: "ustring option"

text \<open>An absent or empty prefix is falsy and gives the bare parameter names.\<close>

definition resolveSortParam :: "ustring option \<Rightarrow> ustring" where
  "resolveSortParam prefix =
     (case prefix of
        None \<Rightarrow> ustr ''sort''
      | Some p \<Rightarrow> if bytes p = [] then ustr ''sort'' else ustr (bytes p @ ''_sort''))"

definition resolveDirectionParam :: "ustring option \<Rightarrow> ustring" where
  "resolveDirectionParam prefix =
     (case prefix of
        None \<Rightarrow> ustr ''dir''
      | Some p \<Rightarrow> if bytes p = [] then ustr ''dir'' else ustr (bytes p @ ''_dir''))"

fun normalizeSorting :: "sorting_state \<Rightarrow> ustring list \<Rightarrow> sorting_state" where
  "normalizeSorting [] allowed = []"
| "normalizeSorting (s # rest) allowed =
     (if id' s \<notin> set allowed then normalizeSorting rest allowed
      else [\<lparr>id' = id' s, desc = desc s\<rparr>])"

text \<open>Past the two length tests both lists have a first element, so \<open>a[0]\<close> is defined.\<close>

definition isSameSorting :: "sorting_state \<Rightarrow> sorting_state \<Rightarrow> bool" where
  "isSameSorting a b =
     (if length a \<noteq> length b then False
      else if length a = 0 then True
      else id' (a ! 0) = id' (b ! 0) \<and> desc (a ! 0) = desc (b ! 0))"

text \<open>
  The state of one hook instance: its copy of the query string, the current path, and
  the targets of the \<open>router.replace(target, { scroll: false })\<close> calls made so far.
\<close>

record sort_hook =
  searchParamsString :: string
  pathname :: string
  replaced :: "string list"

definition syncFromLocation :: "string \<Rightarrow> sort_hook \<Rightarrow> sort_hook" where
  "syncFromLocation location_search st = st\<lparr>searchParamsString := strip_question location_search\<rparr>"

definition normalizedDefaultSorting :: "sorting_options \<Rightarrow> sorting_state" where
  "normalizedDefaultSorting opts =
     normalizeSorting (case defaultSorting opts of None \<Rightarrow> [] | Some d \<Rightarrow> d)
       (allowedColumnIds opts)"

definition sorting :: "sorting_options \<Rightarrow> sort_hook \<Rightarrow> sorting_state" where
  "sorting opts st =
     (let searchParams = new_URLSearchParams (searchParamsString st)
      in case sp_get searchParams (resolveSortParam (paramPrefix opts)) of
           None \<Rightarrow> normalizedDefaultSorting opts
         | Some sortValue \<Rightarrow>
             if bytes sortValue = [] then normalizedDefaultSorting opts
             else if sortValue = SORT_NONE_SENTINEL then []
             else if sortValue \<notin> set (allowedColumnIds opts) then normalizedDefaultSorting opts
             else [\<lparr>id' = sortValue,
                    desc = (sp_get searchParams (resolveDirectionParam (paramPrefix opts))
                              = Some (ustr ''desc''))\<rparr>])"

text \<open>
  The rewrite of the cloned parameters in \<open>onSortingChange\<close>, by the three branches
  on the normalized next state.
\<close>

definition nextParams :: "sorting_options \<Rightarrow> sorting_state \<Rightarrow> search_params \<Rightarrow> search_params" where
  "nextParams opts nextSorting params =
     (let sortParam = resolveSortParam (paramPrefix opts);
          directionParam = resolveDirectionParam (paramPrefix opts)
      in case nextSorting of
           [] \<Rightarrow> sp_delete (sp_set params sortParam SORT_NONE_SENTINEL) directionParam
         | primary # others \<Rightarrow>
             if isSameSorting nextSorting (normalizedDefaultSorting opts)
             then sp_delete (sp_delete params sortParam) directionParam
             else sp_set (sp_set params sortParam (id' primary)) directionParam
                    (if desc primary then ustr ''desc'' else ustr ''asc''))"

definition onSortingChange :: "sorting_options \<Rightarrow> updater \<Rightarrow> sort_hook \<Rightarrow> sort_hook" where
  "onSortingChange opts upd st =
     (let nextSorting = normalizeSorting (functionalUpdate upd (sorting opts st))
                          (allowedColumnIds opts)
      in if isSameSorting nextSorting (sorting opts st) then st
         else
           let query = sp_toString (nextParams opts nextSorting
                                      (new_URLSearchParams (searchParamsString st)))
           in st\<lparr>searchParamsString := query,
                 replaced := replaced st @ [if query \<noteq> [] then pathname st @ CHR ''?'' # query
                                            else pathname st]\<rparr>)"

section \<open>Fixtures of the test files\<close>

text \<open>
  \<open>list-delete.test.ts\<close>: items are \<open>{ id, label }\<close>, the variables are \<open>{ id }\<close>,
  and both accessors read \<open>id\<close>.
\<close>

definition read_id :: "jsval \<Rightarrow> string" where
  "read_id v = (case get_prop v ''id'' of JStr s \<Rightarrow> s | other \<Rightarrow> [])"

definition test_item :: "string \<Rightarrow> string \<Rightarrow> jsval" where
  "test_item i l = JObj [(''id'', JStr i), (''label'', JStr l)]"

definition test_response :: "jsval list \<Rightarrow> int \<Rightarrow> jsval" where
  "test_response its t =
     JObj [(''status'', JNum 200), (''data'', JObj [(''items'', JArr its), (''total'', JNum t)])]"

definition test_delete_options :: "string list option \<Rightarrow> (string, jsval) delete_options" where
  "test_delete_options keys =
     \<lparr>queryKey = ''items'', getItemId = read_id, getDeleteId = read_id,
      invalidateQueryKeys = keys\<rparr>"

definition test_client :: "jsval \<Rightarrow> string query_client" where
  "test_client response = \<lparr>entries = [''items'' \<mapsto> response], calls = []\<rparr>"

definition empty_client :: "string query_client" where
  "empty_client = \<lparr>entries = Map.empty, calls = []\<rparr>"

text \<open>\<open>use-url-sorting.test.tsx\<close>: the agents table, at path \<open>/agents\<close>.\<close>

definition agents_options :: sorting_options where
  "agents_options =
     \<lparr>allowedColumnIds = [ustr ''name'', ustr ''status''],
      defaultSorting = Some [\<lparr>id' = ustr ''name'', desc = False\<rparr>],
      paramPrefix = Some (ustr ''agents'')\<rparr>"

definition agents_hook :: "string \<Rightarrow> sort_hook" where
  "agents_hook search =
     \<lparr>searchParamsString = strip_question search, pathname = ''/agents'', replaced = []\<rparr>"

text \<open>A table whose only sortable column has the empty string as its id.\<close>

definition blank_options :: "sorting_state option \<Rightarrow> sorting_options" where
  "blank_options dflt =
     \<lparr>allowedColumnIds = [ustr []], defaultSorting = dflt, paramPrefix = None\<rparr>"

definition blank_hook :: "string \<Rightarrow> sort_hook" where
  "blank_hook search =
     \<lparr>searchParamsString = strip_question search, pathname = ''/table'', replaced = []\<rparr>"

section \<open>Parsing what the serializer wrote\<close>

subsection \<open>The UTF-8 decoder\<close>

lemma continuation_fits:
  "continuation seq k lo hi input = (Some out, rest) \<Longrightarrow>
     \<exists>m. out = seq @ m \<and> input = m @ rest
         \<and> (\<forall>t. continuation seq k lo hi (m @ t) = (Some out, t))"
proof (induction seq k lo hi input rule: continuation.induct)
  case (1 seq lo hi rest')
  then show ?case by simp
next
  case (2 seq k lo hi)
  then show ?case by simp
next
  case (3 seq k lo hi c rest')
  show ?case
  proof (cases "lo \<le> of_char c \<and> of_char c \<le> hi")
    case True
    with 3 obtain m where m: "out = (seq @ [c]) @ m" "rest' = m @ rest"
      "\<forall>t. continuation (seq @ [c]) k 128 191 (m @ t) = (Some out, t)"
      by auto
    have "out = seq @ (c # m) \<and> c # rest' = (c # m) @ rest
          \<and> (\<forall>t. continuation seq (Suc k) lo hi ((c # m) @ t) = (Some out, t))"
      using m True by simp
    then show ?thesis by blast
  next
    case False
    with 3 show ?thesis by simp
  qed
qed

lemma continuation_ascii:
  "of_char x < (128 :: nat) \<Longrightarrow> 128 \<le> lo \<Longrightarrow>
     continuation seq k lo hi (input @ x # t)
       = (fst (continuation seq k lo hi input), snd (continuation seq k lo hi input) @ x # t)"
  by (induction seq k lo hi input rule: continuation.induct) auto

lemma lower_boundary_ge: "128 \<le> lower_boundary n"
  by (simp add: lower_boundary_def)

lemma utf8_step_ascii:
  "of_char x < (128 :: nat) \<Longrightarrow>
     utf8_step b (rest @ x # t) = (fst (utf8_step b rest), snd (utf8_step b rest) @ x # t)"
  by (simp add: utf8_step_def Let_def continuation_ascii lower_boundary_ge)

lemma utf8_lossy_ascii: "of_char x < (128 :: nat) \<Longrightarrow> utf8_lossy (x # t) = x # utf8_lossy t"
  by (simp add: utf8_step_def Let_def)

declare utf8_lossy.simps(2) [simp del]

lemma utf8_lossy_append_ascii:
  "of_char x < (128 :: nat) \<Longrightarrow> utf8_lossy (a @ x # t) = utf8_lossy a @ x # utf8_lossy t"
proof (induction a rule: utf8_lossy.induct)
  case 1
  then show ?case by (simp add: utf8_lossy_ascii)
next
  case (2 b rest)
  then show ?case by (simp add: utf8_lossy.simps(2) utf8_step_ascii)
qed

lemma continuation_pos:
  "0 < k \<Longrightarrow> continuation seq k lo hi (c # rest)
     = (if lo \<le> of_char c \<and> of_char c \<le> hi then continuation (seq @ [c]) (k - 1) 128 191 rest
        else (None, c # rest))"
  "0 < k \<Longrightarrow> continuation seq k lo hi [] = (None, [])"
  by (cases k; simp)+

lemma utf8_lossy_replacement: "utf8_lossy (replacement @ t) = replacement @ utf8_lossy t"
  by (simp add: replacement_def utf8_lossy.simps(2) utf8_step_def Let_def bytes_needed_def
        lower_boundary_def upper_boundary_def continuation_pos)

lemma utf8_lossy_step:
  "utf8_lossy ((case fst (utf8_step b rest) of Some seq \<Rightarrow> seq | None \<Rightarrow> replacement) @ t)
     = (case fst (utf8_step b rest) of Some seq \<Rightarrow> seq | None \<Rightarrow> replacement) @ utf8_lossy t"
proof (cases "fst (utf8_step b rest)")
  case None
  then show ?thesis by (simp add: utf8_lossy_replacement)
next
  case (Some out)
  show ?thesis
  proof (cases "of_char b < (128 :: nat)")
    case True
    with Some show ?thesis by (auto simp add: utf8_step_def utf8_lossy_ascii)
  next
    case False
    let ?n = "of_char b :: nat"
    from Some False have needed: "bytes_needed ?n \<noteq> 0"
      by (auto simp add: utf8_step_def Let_def split: if_splits)
    with False have step: "utf8_step b input
        = continuation [b] (bytes_needed ?n) (lower_boundary ?n) (upper_boundary ?n) input"
      for input
      by (simp add: utf8_step_def Let_def)
    from Some step[of rest] have "continuation [b] (bytes_needed ?n) (lower_boundary ?n)
        (upper_boundary ?n) rest = (Some out, snd (utf8_step b rest))"
      by (metis prod.collapse)
    from continuation_fits[OF this] obtain m where m: "out = [b] @ m"
      "\<forall>t. continuation [b] (bytes_needed ?n) (lower_boundary ?n) (upper_boundary ?n) (m @ t)
             = (Some out, t)"
      by blast
    have "utf8_lossy (out @ t) = utf8_lossy (b # m @ t)" using m(1) by simp
    also have "\<dots> = out @ utf8_lossy t"
      using m(2) by (simp add: utf8_lossy.simps(2) step)
    finally show ?thesis using Some by simp
  qed
qed

lemma utf8_lossy_idem: "utf8_lossy (utf8_lossy s) = utf8_lossy s"
  by (induction s rule: utf8_lossy.induct) (simp_all add: utf8_lossy.simps(2) utf8_lossy_step)

subsection \<open>Scalar value strings\<close>

lemma bytes_ustr: "bytes (ustr s) = utf8_lossy s"
  by (simp add: ustr_def Abs_ustring_inverse utf8_lossy_idem)

lemma utf8_lossy_bytes: "utf8_lossy (bytes u) = bytes u"
  using bytes[of u] by simp

lemma ustr_bytes: "ustr (bytes u) = u"
  by (simp add: ustr_def utf8_lossy_bytes bytes_inverse)

lemma ustr_eq_iff: "ustr a = ustr b \<longleftrightarrow> utf8_lossy a = utf8_lossy b"
proof
  assume "ustr a = ustr b"
  then have "bytes (ustr a) = bytes (ustr b)" by simp
  then show "utf8_lossy a = utf8_lossy b" by (simp only: bytes_ustr)
next
  assume "utf8_lossy a = utf8_lossy b"
  then show "ustr a = ustr b" by (simp add: ustr_def)
qed

lemma ustr_append_ascii:
  "of_char x < (128 :: nat) \<Longrightarrow> bytes (ustr (bytes p @ x # t)) = bytes p @ x # utf8_lossy t"
  by (simp add: bytes_ustr utf8_lossy_append_ascii utf8_lossy_bytes)

subsection \<open>Percent-encoding\<close>

lemma hex_digit_is_hex: "n < 16 \<Longrightarrow> is_hex_digit (hex_digit n)"
  by (simp add: is_hex_digit_def hex_digit_def)

lemma hex_value_hex_digit: "n < 16 \<Longrightarrow> hex_value (hex_digit n) = n"
  by (simp add: hex_value_def hex_digit_def)

lemma form_safe_hex_digit: "n < 16 \<Longrightarrow> form_safe (hex_digit n)"
  by (simp add: form_safe_def hex_digit_def)

lemma form_safe_not_special:
  "form_safe c \<Longrightarrow> c \<noteq> CHR ''+'' \<and> c \<noteq> CHR ''&'' \<and> c \<noteq> CHR ''='' \<and> c \<noteq> CHR ''?'' \<and> c \<noteq> CHR ''%'' \<and> c \<noteq> CHR '' ''"
  by (auto simp add: form_safe_def)

lemma percent_decode_plain:
  assumes "c \<noteq> CHR ''%''"
  shows "percent_decode (c # xs) = c # percent_decode xs"
proof (cases xs)
  case Nil
  then show ?thesis by simp
next
  case (Cons h t)
  with assms show ?thesis by (cases t) simp_all
qed

definition plus_to_space :: "char \<Rightarrow> char" where
  "plus_to_space c = (if c = CHR ''+'' then CHR '' '' else c)"

lemma decode_encode_byte:
  "percent_decode (map (\<lambda>c. if c = CHR ''+'' then CHR '' '' else c) (encode_byte c @ t))
     = c # percent_decode (map (\<lambda>c. if c = CHR ''+'' then CHR '' '' else c) t)"
proof -
  let ?m = "\<lambda>c. if c = CHR ''+'' then CHR '' '' else c"
  consider (sp) "c = CHR '' ''" | (safe) "c \<noteq> CHR '' ''" "form_safe c" | (enc) "c \<noteq> CHR '' ''" "\<not> form_safe c"
    by blast
  then show ?thesis
  proof cases
    case sp
    then show ?thesis by (simp add: encode_byte_def percent_decode_plain)
  next
    case safe
    then show ?thesis using form_safe_not_special[of c]
      by (simp add: encode_byte_def percent_decode_plain)
  next
    case enc
    have hi: "(of_char c :: nat) div 16 < 16"
      using nat_of_char_less_256[of c] by (simp add: less_mult_imp_div_less)
    have lo: "(of_char c :: nat) mod 16 < 16" by simp
    have m_hi: "?m (hex_digit (of_char c div 16)) = hex_digit (of_char c div 16)"
      using form_safe_not_special[OF form_safe_hex_digit[OF hi]] by simp
    have m_lo: "?m (hex_digit (of_char c mod 16)) = hex_digit (of_char c mod 16)"
      using form_safe_not_special[OF form_safe_hex_digit[OF lo]] by simp
    show ?thesis using enc
      by (simp add: encode_byte_def m_hi m_lo hex_digit_is_hex[OF hi] hex_digit_is_hex[OF lo]
            hex_value_hex_digit[OF hi] hex_value_hex_digit[OF lo])
  qed
qed

lemma percent_decode_encode:
  "percent_decode (map (\<lambda>c. if c = CHR ''+'' then CHR '' '' else c) (concat (map encode_byte s))) = s"
  by (induction s) (simp_all add: decode_encode_byte del: map_append)

lemma form_decode_encode: "form_decode (form_encode s) = s"
  by (simp add: form_decode_def form_encode_def percent_decode_encode ustr_bytes)

lemma encode_byte_chars:
  "x \<in> set (encode_byte c) \<Longrightarrow> x \<noteq> CHR ''&'' \<and> x \<noteq> CHR ''='' \<and> x \<noteq> CHR ''?''"
proof -
  have hi: "(of_char c :: nat) div 16 < 16"
    using nat_of_char_less_256[of c] by (simp add: less_mult_imp_div_less)
  have lo: "(of_char c :: nat) mod 16 < 16" by simp
  assume "x \<in> set (encode_byte c)"
  then show ?thesis
    using form_safe_not_special[of c] form_safe_not_special[OF form_safe_hex_digit[OF hi]]
      form_safe_not_special[OF form_safe_hex_digit[OF lo]]
    by (auto simp add: encode_byte_def split: if_splits)
qed

lemma form_encode_chars:
  "x \<in> set (form_encode s) \<Longrightarrow> x \<noteq> CHR ''&'' \<and> x \<noteq> CHR ''='' \<and> x \<noteq> CHR ''?''"
  unfolding form_encode_def using encode_byte_chars by auto


lemma split_acc_plain: "d \<notin> set s \<Longrightarrow> split_acc d acc s = [rev acc @ s]"
  by (induction s arbitrary: acc) auto

lemma split_acc_delim:
  "d \<notin> set s \<Longrightarrow> split_acc d acc (s @ d # t) = (rev acc @ s) # split_acc d [] t"
  by (induction s arbitrary: acc) auto


lemma encode_pair_no_amp: "CHR ''&'' \<notin> set (encode_pair p)"
  using form_encode_chars by (auto simp add: encode_pair_def)

lemma encode_pair_no_question: "CHR ''?'' \<notin> set (encode_pair p)"
  using form_encode_chars by (auto simp add: encode_pair_def)

lemma parse_pair_encode_pair: "parse_pair (encode_pair p) = p"
proof -
  have "\<forall>x\<in>set (form_encode (fst p)). x \<noteq> CHR ''=''"
    using form_encode_chars by blast
  then show ?thesis
    by (simp add: parse_pair_def encode_pair_def takeWhile_append2 dropWhile_append2
          form_decode_encode)
qed

lemma parse_query_single: "parse_query (encode_pair p) = [p]"
proof -
  have "encode_pair p \<noteq> []" by (simp add: encode_pair_def)
  then show ?thesis
    using split_acc_plain[OF encode_pair_no_amp[of p], of "[]"]
    by (simp add: parse_query_def parse_pair_encode_pair)
qed

lemma parse_query_cons:
  "parse_query (encode_pair p @ CHR ''&'' # rest) = p # parse_query rest"
proof -
  have "encode_pair p \<noteq> []" by (simp add: encode_pair_def)
  then show ?thesis
    using split_acc_delim[OF encode_pair_no_amp[of p], of "[]" rest]
    by (simp add: parse_query_def parse_pair_encode_pair)
qed

lemma parse_query_join: "parse_query (join_amp (map encode_pair ps)) = ps"
proof (induction ps)
  case Nil
  show ?case by (simp add: parse_query_def)
next
  case (Cons p ps)
  then show ?case
    by (cases ps) (simp_all add: parse_query_single parse_query_cons)
qed

lemma join_amp_no_question:
  "\<forall>x\<in>set xs. CHR ''?'' \<notin> set x \<Longrightarrow> CHR ''?'' \<notin> set (join_amp xs)"
  by (induction xs rule: join_amp.induct) auto

lemma sp_toString_no_question: "CHR ''?'' \<notin> set (sp_toString ps)"
  unfolding sp_toString_def
  by (rule join_amp_no_question) (simp add: encode_pair_no_question)

lemma strip_question_plain: "CHR ''?'' \<notin> set s \<Longrightarrow> strip_question s = s"
  by (cases s) (auto simp add: strip_question_def)

lemma parse_toString: "new_URLSearchParams (sp_toString ps) = ps"
proof -
  have "parse_query (sp_toString ps) = ps"
    by (simp add: sp_toString_def parse_query_join)
  then show ?thesis
    by (simp add: new_URLSearchParams_def strip_question_plain[OF sp_toString_no_question])
qed

lemma sp_toString_empty_iff: "sp_toString ps = [] \<longleftrightarrow> ps = []"
proof (cases ps)
  case Nil
  then show ?thesis by (simp add: sp_toString_def)
next
  case (Cons p qs)
  then show ?thesis by (cases qs) (simp_all add: sp_toString_def encode_pair_def)
qed


subsection \<open>get, set, delete\<close>

lemma map_of_sp_delete: "map_of (sp_delete ps n) m = (if m = n then None else map_of ps m)"
  by (induction ps) (auto simp add: sp_delete_def)

lemma sp_get_delete: "sp_get (sp_delete ps n) m = (if m = n then None else sp_get ps m)"
  by (simp add: sp_get_def map_of_sp_delete)

lemma sp_get_set: "sp_get (sp_set ps n v) m = (if m = n then Some v else sp_get ps m)"
  by (induction ps) (auto simp add: sp_get_def map_of_sp_delete)

lemma filter_others_delete:
  "n \<in> S \<Longrightarrow> filter (\<lambda>p. fst p \<notin> S) (sp_delete ps n) = filter (\<lambda>p. fst p \<notin> S) ps"
  by (induction ps) (auto simp add: sp_delete_def)

lemma filter_others_set:
  "n \<in> S \<Longrightarrow> filter (\<lambda>p. fst p \<notin> S) (sp_set ps n v) = filter (\<lambda>p. fst p \<notin> S) ps"
  by (induction ps) (auto simp add: filter_others_delete)

lemma sp_delete_absent: "sp_get ps n = None \<Longrightarrow> sp_delete ps n = ps"
  by (induction ps) (auto simp add: sp_get_def sp_delete_def split: if_splits)

lemma sp_set_absent: "sp_get ps n = None \<Longrightarrow> sp_set ps n v = ps @ [(n, v)]"
  by (induction ps) (auto simp add: sp_get_def split: if_splits)

subsection \<open>Sort states\<close>

lemma utf8_lossy_sort_dir:
  "utf8_lossy ''sort'' = ''sort''" "utf8_lossy ''dir'' = ''dir''"
  by (simp_all add: utf8_lossy_ascii)

lemma resolve_params_differ: "resolveSortParam prefix \<noteq> resolveDirectionParam prefix"
proof (cases prefix)
  case None
  then show ?thesis
    by (simp add: resolveSortParam_def resolveDirectionParam_def ustr_eq_iff utf8_lossy_sort_dir)
next
  case (Some p)
  have "bytes (ustr (bytes p @ ''_sort'')) \<noteq> bytes (ustr (bytes p @ ''_dir''))"
    by (simp add: ustr_append_ascii utf8_lossy_sort_dir)
  then have "ustr (bytes p @ ''_sort'') \<noteq> ustr (bytes p @ ''_dir'')" by auto
  with Some show ?thesis
    by (simp add: resolveSortParam_def resolveDirectionParam_def ustr_eq_iff utf8_lossy_sort_dir)
qed

lemma normalizeSorting_filter:
  "normalizeSorting v allowed =
     (case filter (\<lambda>s. id' s \<in> set allowed) v of [] \<Rightarrow> [] | s # rest \<Rightarrow> [s])"
  by (induction v) auto

lemma normalizeSorting_length: "length (normalizeSorting v allowed) \<le> 1"
  by (induction v) auto

lemma normalizeSorting_allowed: "s \<in> set (normalizeSorting v allowed) \<Longrightarrow> id' s \<in> set allowed"
  by (induction v) (auto split: if_splits)

lemma normalizeSorting_idem:
  "normalizeSorting (normalizeSorting v allowed) allowed = normalizeSorting v allowed"
  by (induction v) auto

lemma normalizedDefaultSorting_length: "length (normalizedDefaultSorting opts) \<le> 1"
  unfolding normalizedDefaultSorting_def by (rule normalizeSorting_length)

lemma sorting_length: "length (sorting opts st) \<le> 1"
  using normalizedDefaultSorting_length[of opts]
  by (simp add: sorting_def Let_def split: option.splits)

lemma isSameSorting_refl: "isSameSorting a a"
  by (simp add: isSameSorting_def)

lemma isSameSorting_eq:
  "length a \<le> 1 \<Longrightarrow> length b \<le> 1 \<Longrightarrow> isSameSorting a b \<longleftrightarrow> a = b"
  by (cases a; cases b) (auto simp add: isSameSorting_def)

subsection \<open>The list cache\<close>

lemma getQueryData_cancelQueries: "getQueryData (cancelQueries k qc) key = getQueryData qc key"
  by (simp add: getQueryData_def cancelQueries_def)

lemma get_prop_num_is_object: "get_prop v k = JNum n \<Longrightarrow> \<exists>fs. v = JObj fs"
  by (cases v) simp_all

lemma get_prop_arr_is_object: "get_prop v k = JArr xs \<Longrightarrow> \<exists>fs. v = JObj fs"
  by (cases v) simp_all

lemma get_prop_update:
  "get_prop (JObj (AList.update k v fs)) k' = (if k' = k then v else get_prop (JObj fs) k')"
  by (simp add: update_conv')

lemma getListPayload_None:
  "\<not> isListPayload (get_prop response ''data'') \<Longrightarrow> getListPayload response = None"
  by (simp add: getListPayload_def Let_def)

lemma getListPayload_Some:
  "getListPayload response = Some payload \<Longrightarrow>
     payload = get_prop response ''data'' \<and> isListPayload payload"
  by (auto simp add: getListPayload_def Let_def split: if_splits)

lemma length_filter_removed:
  "int (length xs) - int (length (filter (\<lambda>x. f x \<noteq> a) xs)) = int (length (filter (\<lambda>x. f x = a) xs))"
  using sum_length_filter_compl[of "\<lambda>x. f x = a" xs] by simp

lemma absent_filter_empty: "a \<notin> f ` set xs \<Longrightarrow> filter (\<lambda>x. f x = a) xs = []"
  by (induction xs) auto

lemma distinct_filter_le_one:
  "distinct (map f xs) \<Longrightarrow> length (filter (\<lambda>x. f x = a) xs) \<le> 1"
proof (induction xs)
  case Nil
  then show ?case by simp
next
  case (Cons x xs)
  show ?case
  proof (cases "f x = a")
    case True
    with Cons.prems have "a \<notin> f ` set xs" by auto
    then have "filter (\<lambda>x. f x = a) xs = []" by (rule absent_filter_empty)
    with True show ?thesis by simp
  next
    case False
    with Cons show ?thesis by simp
  qed
qed

lemma present_filter_ge_one:
  "a \<in> f ` set xs \<Longrightarrow> 1 \<le> length (filter (\<lambda>x. f x = a) xs)"
  by (induction xs) auto

lemma absent_filter_id: "a \<notin> f ` set xs \<Longrightarrow> filter (\<lambda>x. f x \<noteq> a) xs = xs"
  by (induction xs) auto

lemma onMutate_rewrite:
  assumes st: "get_prop (getQueryData qc (queryKey opts)) ''status'' = JNum 200"
    and it: "get_prop (get_prop (getQueryData qc (queryKey opts)) ''data'') ''items'' = JArr items"
    and to: "get_prop (get_prop (getQueryData qc (queryKey opts)) ''data'') ''total'' = JNum tot"
  shows "onMutate opts variables qc =
     (\<lparr>previous = getQueryData qc (queryKey opts)\<rparr>,
      setQueryData (queryKey opts)
        (JObj (AList.update ''data''
           (JObj (AList.update ''total''
                    (JNum (max 0 (tot - int (length (filter (\<lambda>item. getItemId opts item = getDeleteId opts variables) items)))))
                 (AList.update ''items''
                    (JArr (filter (\<lambda>item. getItemId opts item \<noteq> getDeleteId opts variables) items))
                    (spread (get_prop (getQueryData qc (queryKey opts)) ''data'')))))
           (spread (getQueryData qc (queryKey opts)))))
        (cancelQueries (queryKey opts) qc))"
proof -
  let ?prev = "getQueryData qc (queryKey opts)"
  let ?payload = "get_prop ?prev ''data''"
  obtain fs where fs: "?prev = JObj fs" using get_prop_num_is_object[OF st] by blast
  obtain gs where gs: "?payload = JObj gs" using get_prop_arr_is_object[OF it] by blast
  have lp: "isListPayload ?payload"
    using it to by (simp add: isListPayload_def gs)
  have glp: "getListPayload ?prev = Some ?payload"
    using lp by (simp add: getListPayload_def Let_def fs)
  show ?thesis
    using st it to glp
    by (simp add: onMutate_def Let_def getQueryData_cancelQueries fs length_filter_removed)
qed


lemma getQueryData_setQueryData: "getQueryData (setQueryData k v qc) k = v"
  by (simp add: getQueryData_def setQueryData_def)

lemma get_prop_update_same:
  "get_prop (JObj fs) k = v \<Longrightarrow> v \<noteq> JUndefined \<Longrightarrow> AList.update k v fs = fs"
  by (rule update_triv) (auto split: option.splits)

section \<open>The optimistic delete\<close>

text \<open>
  Two cached items share the identity \<open>a\<close> and the total is 2. One delete of \<open>a\<close>
  removes both and takes the total to 0: more than one item is removed by one call.
  And with a cached total of -1, deleting an identity that no item has takes the total
  to 0: the total is not left unchanged.
\<close>

theorem onMutate_removes_two_counterexample:
  "getQueryData
     (snd (onMutate (test_delete_options None) (JObj [(''id'', JStr ''a'')])
            (test_client (test_response [test_item ''a'' ''A'', test_item ''a'' ''B''] 2))))
     ''items''
   = test_response [] 0
   \<and> getQueryData
     (snd (onMutate (test_delete_options None) (JObj [(''id'', JStr ''z'')])
            (test_client (test_response [test_item ''a'' ''A''] (- 1)))))
     ''items''
   = test_response [test_item ''a'' ''A''] 0"
  by (simp add: onMutate_def Let_def cancelQueries_def getQueryData_def setQueryData_def
        test_delete_options_def test_client_def test_response_def test_item_def read_id_def
        getListPayload_def isListPayload_def)

text \<open>
  C1, as the code has it. For a cache entry with status 200 whose data has an array
  \<open>items\<close> and a number \<open>total\<close>, \<open>onMutate\<close> writes an entry that keeps the
  status, whose items are the old ones without every item of the target identity (all of
  them, in order), and whose total is \<open>max 0 (total - removedCount)\<close>, hence not
  negative, \<open>removedCount\<close> being the number of items of that identity. When the
  identities of the items are pairwise distinct that number is one if the target is
  present and zero if not. When no item has the target identity the items are unchanged
  and the total becomes \<open>max 0 total\<close>; if moreover the total was not negative the
  written entry equals the old one.
\<close>

theorem onMutate_removes_matching_items:
  assumes st: "get_prop (getQueryData qc (queryKey opts)) ''status'' = JNum 200"
    and it: "get_prop (get_prop (getQueryData qc (queryKey opts)) ''data'') ''items'' = JArr items"
    and to: "get_prop (get_prop (getQueryData qc (queryKey opts)) ''data'') ''total'' = JNum tot"
  shows "let entry' = getQueryData (snd (onMutate opts variables qc)) (queryKey opts);
             data' = get_prop entry' ''data'';
             target = getDeleteId opts variables;
             removedCount = int (length (filter (\<lambda>item. getItemId opts item = target) items))
         in get_prop entry' ''status'' = JNum 200
          \<and> get_prop data' ''items'' = JArr (filter (\<lambda>item. getItemId opts item \<noteq> target) items)
          \<and> get_prop data' ''total'' = JNum (max 0 (tot - removedCount))
          \<and> 0 \<le> number_value (get_prop data' ''total'')
          \<and> (distinct (map (getItemId opts) items) \<longrightarrow>
               removedCount = (if target \<in> getItemId opts ` set items then 1 else 0))
          \<and> (target \<notin> getItemId opts ` set items \<longrightarrow>
               get_prop data' ''items'' = JArr items \<and> get_prop data' ''total'' = JNum (max 0 tot))
          \<and> (target \<notin> getItemId opts ` set items \<and> 0 \<le> tot \<longrightarrow>
               entry' = getQueryData qc (queryKey opts))"
proof -
  let ?prev = "getQueryData qc (queryKey opts)"
  let ?payload = "get_prop ?prev ''data''"
  let ?target = "getDeleteId opts variables"
  let ?n = "int (length (filter (\<lambda>item. getItemId opts item = ?target) items))"
  let ?data' = "JObj (AList.update ''total'' (JNum (max 0 (tot - ?n)))
                  (AList.update ''items''
                     (JArr (filter (\<lambda>item. getItemId opts item \<noteq> ?target) items))
                     (spread ?payload)))"
  let ?entry' = "JObj (AList.update ''data'' ?data' (spread ?prev))"
  obtain fs where fs: "?prev = JObj fs" using get_prop_num_is_object[OF st] by blast
  obtain gs where gs: "?payload = JObj gs" using get_prop_arr_is_object[OF it] by blast
  have entry: "getQueryData (snd (onMutate opts variables qc)) (queryKey opts) = ?entry'"
    by (simp add: onMutate_rewrite[OF st it to] getQueryData_setQueryData)
  have status: "get_prop ?entry' ''status'' = JNum 200"
    using st by (simp only: fs spread.simps get_prop_update) simp
  have data: "get_prop ?entry' ''data'' = ?data'"
    by (simp only: get_prop_update) simp
  have items': "get_prop ?data' ''items'' = JArr (filter (\<lambda>item. getItemId opts item \<noteq> ?target) items)"
    by (simp only: get_prop_update) simp
  have total': "get_prop ?data' ''total'' = JNum (max 0 (tot - ?n))"
    by (simp only: get_prop_update) simp
  have dist: "distinct (map (getItemId opts) items) \<longrightarrow>
                ?n = (if ?target \<in> getItemId opts ` set items then 1 else 0)"
  proof
    assume d: "distinct (map (getItemId opts) items)"
    show "?n = (if ?target \<in> getItemId opts ` set items then 1 else 0)"
    proof (cases "?target \<in> getItemId opts ` set items")
      case True
      then show ?thesis
        using distinct_filter_le_one[OF d, of ?target] present_filter_ge_one[OF True] by simp
    next
      case False
      then show ?thesis by (simp add: absent_filter_empty)
    qed
  qed
  have absent: "?target \<notin> getItemId opts ` set items \<longrightarrow>
                  ?n = 0 \<and> filter (\<lambda>item. getItemId opts item \<noteq> ?target) items = items"
  proof
    assume a: "?target \<notin> getItemId opts ` set items"
    then show "?n = 0 \<and> filter (\<lambda>item. getItemId opts item \<noteq> ?target) items = items"
      by (simp add: absent_filter_empty absent_filter_id)
  qed
  have same: "?target \<notin> getItemId opts ` set items \<and> 0 \<le> tot \<longrightarrow> ?entry' = ?prev"
  proof
    assume a: "?target \<notin> getItemId opts ` set items \<and> 0 \<le> tot"
    with absent have n0: "?n = 0"
      and keep: "filter (\<lambda>item. getItemId opts item \<noteq> ?target) items = items" by simp_all
    have i: "AList.update ''items'' (JArr items) gs = gs"
      using it by (intro get_prop_update_same) (simp_all add: gs)
    have t: "AList.update ''total'' (JNum tot) gs = gs"
      using to by (intro get_prop_update_same) (simp_all add: gs)
    have d: "AList.update ''data'' (JObj gs) fs = fs"
      using gs by (intro get_prop_update_same) (simp_all add: fs)
    from a have m: "max 0 tot = tot" by simp
    from gs have gs': "get_prop (JObj fs) ''data'' = JObj gs" by (simp only: fs)
    show "?entry' = ?prev"
      by (simp only: n0 keep diff_0_right m fs gs' spread.simps i t d)
  qed
  show ?thesis
    unfolding Let_def entry data
    using status items' total' dist absent same
    by (simp only: number_value.simps) simp
qed


text \<open>The first test of \<open>list-delete.test.ts\<close>: deleting \<open>a\<close> from \<open>[a, b]\<close>, total 2.\<close>

theorem onMutate_removes_matching_items_witness:
  "get_prop (getQueryData (test_client (test_response [test_item ''a'' ''A'', test_item ''b'' ''B''] 2))
      (queryKey (test_delete_options None))) ''status'' = JNum 200
   \<and> get_prop (get_prop (getQueryData
        (test_client (test_response [test_item ''a'' ''A'', test_item ''b'' ''B''] 2))
        (queryKey (test_delete_options None))) ''data'') ''items''
       = JArr [test_item ''a'' ''A'', test_item ''b'' ''B'']
   \<and> get_prop (get_prop (getQueryData
        (test_client (test_response [test_item ''a'' ''A'', test_item ''b'' ''B''] 2))
        (queryKey (test_delete_options None))) ''data'') ''total'' = JNum 2
   \<and> getQueryData
        (snd (onMutate (test_delete_options None) (JObj [(''id'', JStr ''a'')])
               (test_client (test_response [test_item ''a'' ''A'', test_item ''b'' ''B''] 2))))
        (queryKey (test_delete_options None))
       = test_response [test_item ''b'' ''B''] 1"
proof -
  let ?opts = "test_delete_options None :: (string, jsval) delete_options"
  let ?qc = "test_client (test_response [test_item ''a'' ''A'', test_item ''b'' ''B''] 2)"
  let ?v = "JObj [(''id'', JStr ''a'')]"
  let ?entry' = "getQueryData (snd (onMutate ?opts ?v ?qc)) (queryKey ?opts)"
  have st: "get_prop (getQueryData ?qc (queryKey ?opts)) ''status'' = JNum 200"
    by (simp add: test_delete_options_def test_client_def test_response_def getQueryData_def)
  have it: "get_prop (get_prop (getQueryData ?qc (queryKey ?opts)) ''data'') ''items''
              = JArr [test_item ''a'' ''A'', test_item ''b'' ''B'']"
    by (simp add: test_delete_options_def test_client_def test_response_def getQueryData_def)
  have to: "get_prop (get_prop (getQueryData ?qc (queryKey ?opts)) ''data'') ''total'' = JNum 2"
    by (simp add: test_delete_options_def test_client_def test_response_def getQueryData_def)
  have "get_prop ?entry' ''status'' = JNum 200
        \<and> get_prop (get_prop ?entry' ''data'') ''items'' = JArr [test_item ''b'' ''B'']
        \<and> get_prop (get_prop ?entry' ''data'') ''total'' = JNum 1"
    using onMutate_removes_matching_items[OF st it to, of ?v]
    by (simp add: Let_def test_delete_options_def read_id_def test_item_def)
  moreover have "?entry' = test_response [test_item ''b'' ''B''] 1"
    by (simp add: onMutate_def Let_def cancelQueries_def getQueryData_def setQueryData_def
        test_delete_options_def test_client_def test_response_def test_item_def read_id_def
        getListPayload_def isListPayload_def)
  ultimately show ?thesis using st it to by simp
qed

text \<open>
  C3. If the cache has no entry for the query key, or the entry's status is not 200, or
  its data is not a list payload, then \<open>onMutate\<close> only cancels the fetches of the
  key: the store is unchanged, no \<open>setQueryData\<close> call is made, and the returned
  context carries the entry that was read (\<open>undefined\<close> when there was none).
\<close>

theorem onMutate_skips_ineligible_entry:
  assumes "entries qc (queryKey opts) = None
           \<or> get_prop (getQueryData qc (queryKey opts)) ''status'' \<noteq> JNum 200
           \<or> \<not> isListPayload (get_prop (getQueryData qc (queryKey opts)) ''data'')"
  shows "onMutate opts variables qc =
           (\<lparr>previous = getQueryData qc (queryKey opts)\<rparr>, cancelQueries (queryKey opts) qc)
         \<and> entries (snd (onMutate opts variables qc)) = entries qc
         \<and> calls (snd (onMutate opts variables qc)) = calls qc @ [CancelQueries (queryKey opts)]"
proof -
  let ?prev = "getQueryData qc (queryKey opts)"
  have skip: "\<not> (js_truthy ?prev \<and> get_prop ?prev ''status'' = JNum 200)
              \<or> getListPayload ?prev = None"
    using assms by (auto simp add: getQueryData_def getListPayload_None)
  then have "onMutate opts variables qc = (\<lparr>previous = ?prev\<rparr>, cancelQueries (queryKey opts) qc)"
    by (auto simp add: onMutate_def Let_def getQueryData_cancelQueries)
  then show ?thesis by (simp add: cancelQueries_def)
qed

text \<open>An entry with status 200 whose \<open>items\<close> is a number and whose \<open>total\<close> is missing.\<close>

theorem onMutate_skips_ineligible_entry_witness:
  "\<not> isListPayload (get_prop (getQueryData
        (test_client (JObj [(''status'', JNum 200), (''data'', JObj [(''items'', JNum 3)])]))
        (queryKey (test_delete_options None))) ''data'')
   \<and> onMutate (test_delete_options None) (JObj [(''id'', JStr ''a'')])
        (test_client (JObj [(''status'', JNum 200), (''data'', JObj [(''items'', JNum 3)])]))
       = (\<lparr>previous = JObj [(''status'', JNum 200), (''data'', JObj [(''items'', JNum 3)])]\<rparr>,
          \<lparr>entries = [''items'' \<mapsto> JObj [(''status'', JNum 200), (''data'', JObj [(''items'', JNum 3)])]],
           calls = [CancelQueries ''items'']\<rparr>)"
proof -
  let ?opts = "test_delete_options None :: (string, jsval) delete_options"
  let ?qc = "test_client (JObj [(''status'', JNum 200), (''data'', JObj [(''items'', JNum 3)])])"
  have h: "\<not> isListPayload (get_prop (getQueryData ?qc (queryKey ?opts)) ''data'')"
    by (simp add: test_delete_options_def test_client_def getQueryData_def isListPayload_def)
  then have "entries ?qc (queryKey ?opts) = None
           \<or> get_prop (getQueryData ?qc (queryKey ?opts)) ''status'' \<noteq> JNum 200
           \<or> \<not> isListPayload (get_prop (getQueryData ?qc (queryKey ?opts)) ''data'')"
    by blast
  from onMutate_skips_ineligible_entry[OF this, of "JObj [(''id'', JStr ''a'')]"] h
  show ?thesis
    by (simp add: test_delete_options_def test_client_def getQueryData_def cancelQueries_def)
qed


lemma entries_onMutate:
  "entries (snd (onMutate opts variables qc)) = entries qc
   \<or> (\<exists>v. entries (snd (onMutate opts variables qc)) = (entries qc)(queryKey opts \<mapsto> v))"
  by (auto simp add: onMutate_def Let_def cancelQueries_def setQueryData_def split: option.splits)

lemma previous_onMutate: "previous (fst (onMutate opts variables qc)) = getQueryData qc (queryKey opts)"
  by (simp add: onMutate_def Let_def getQueryData_cancelQueries split: option.splits)

lemma truthy_entry_present:
  "js_truthy (getQueryData qc key) \<Longrightarrow> entries qc key = Some (getQueryData qc key)"
  by (cases "entries qc key") (simp_all add: getQueryData_def)

text \<open>
  C2. When the context holds a snapshot (a truthy \<open>previous\<close>, as every response object
  is), \<open>onError\<close> makes exactly one write, of that snapshot whole, under the query key:
  whatever the client held for the key before, it now holds the snapshot, and the other
  keys are untouched. In particular, after \<open>onMutate\<close> and then \<open>onError\<close> with the
  context \<open>onMutate\<close> returned, the store is the one before the mutation, for every
  cache state and every deletion target.
\<close>

theorem onError_restores_snapshot:
  "(js_truthy snapshot \<longrightarrow>
      onError opts (Some \<lparr>previous = snapshot\<rparr>) qc'
        = setQueryData (queryKey opts) snapshot qc'
      \<and> getQueryData (onError opts (Some \<lparr>previous = snapshot\<rparr>) qc') (queryKey opts) = snapshot
      \<and> entries (onError opts (Some \<lparr>previous = snapshot\<rparr>) qc')
          = (entries qc')(queryKey opts \<mapsto> snapshot)
      \<and> calls (onError opts (Some \<lparr>previous = snapshot\<rparr>) qc')
          = calls qc' @ [SetQueryData (queryKey opts) snapshot])
   \<and> entries (onError opts (Some (fst (onMutate opts variables qc)))
                (snd (onMutate opts variables qc)))
       = entries qc"
proof -
  let ?ctx = "fst (onMutate opts variables qc)"
  let ?after = "snd (onMutate opts variables qc)"
  let ?prev = "getQueryData qc (queryKey opts)"
  have restored: "entries (onError opts (Some ?ctx) ?after) = entries qc"
  proof (cases "js_truthy ?prev")
    case True
    then have present: "entries qc (queryKey opts) = Some ?prev"
      by (rule truthy_entry_present)
    have "entries (onError opts (Some ?ctx) ?after) = (entries ?after)(queryKey opts \<mapsto> ?prev)"
      using True by (simp add: onError_def previous_onMutate setQueryData_def)
    also have "\<dots> = (entries qc)(queryKey opts \<mapsto> ?prev)"
      using entries_onMutate[of opts variables qc] by auto
    also have "\<dots> = entries qc"
      using present by (rule map_upd_triv)
    finally show ?thesis .
  next
    case False
    then have "onMutate opts variables qc = (\<lparr>previous = ?prev\<rparr>, cancelQueries (queryKey opts) qc)"
      by (simp add: onMutate_def Let_def getQueryData_cancelQueries)
    with False show ?thesis
      by (simp add: onError_def cancelQueries_def)
  qed
  show ?thesis
    using restored by (simp add: onError_def setQueryData_def getQueryData_def)
qed

text \<open>
  The first test of \<open>list-delete.test.ts\<close>: after deleting \<open>a\<close> optimistically and
  failing, the cache holds the response it held before.
\<close>

theorem onError_restores_snapshot_witness:
  "js_truthy (test_response [test_item ''a'' ''A'', test_item ''b'' ''B''] 2)
   \<and> getQueryData
        (onError (test_delete_options None)
           (Some \<lparr>previous = test_response [test_item ''a'' ''A'', test_item ''b'' ''B''] 2\<rparr>)
           (test_client (test_response [test_item ''b'' ''B''] 1)))
        ''items''
       = test_response [test_item ''a'' ''A'', test_item ''b'' ''B''] 2"
proof -
  have h: "js_truthy (test_response [test_item ''a'' ''A'', test_item ''b'' ''B''] 2)"
    by (simp add: test_response_def)
  have k: "queryKey (test_delete_options None :: (string, jsval) delete_options) = ''items''"
    by (simp add: test_delete_options_def)
  from h onError_restores_snapshot[of "test_response [test_item ''a'' ''A'', test_item ''b'' ''B''] 2"
        "test_delete_options None" "test_client (test_response [test_item ''b'' ''B''] 1)"]
  have "getQueryData
        (onError (test_delete_options None)
           (Some \<lparr>previous = test_response [test_item ''a'' ''A'', test_item ''b'' ''B''] 2\<rparr>)
           (test_client (test_response [test_item ''b'' ''B''] 1)))
        (queryKey (test_delete_options None :: (string, jsval) delete_options))
       = test_response [test_item ''a'' ''A'', test_item ''b'' ''B''] 2"
    by blast
  with h k show ?thesis by simp
qed

text \<open>
  An invalidation list that is provided but empty: \<open>onSettled\<close> does not invalidate
  "exactly the keys of that list" (none), it invalidates the mutation's own key.
\<close>

theorem onSettled_empty_list_counterexample:
  "calls (onSettled (test_delete_options (Some [])) empty_client) = [InvalidateQueries ''items'']
   \<and> calls (onSettled (test_delete_options (Some [])) empty_client)
       \<noteq> calls empty_client @ map InvalidateQueries []"
  by (simp add: onSettled_def keysToInvalidate_def test_delete_options_def empty_client_def
        invalidateQueries_def)

lemma foldl_invalidateQueries:
  "foldl (\<lambda>c key. invalidateQueries key c) qc keys
     = qc\<lparr>calls := calls qc @ map InvalidateQueries keys\<rparr>"
  by (induction keys arbitrary: qc) (simp_all add: invalidateQueries_def)

text \<open>
  C4, as the code has it. One call of \<open>onSettled\<close> (which takes no outcome, so it does
  the same after success and after failure) makes one \<open>invalidateQueries\<close> call per
  entry of the configured list, in list order, and nothing else: the entries of
  \<open>invalidateQueryKeys\<close> when that list is provided and not empty, the mutation's own
  \<open>queryKey\<close> alone when the list is absent or empty. So a key that occurs once in the
  list is invalidated exactly once, and the store is not written.
\<close>

theorem onSettled_invalidates_configured_keys:
  "calls (onSettled opts qc)
     = calls qc @ map InvalidateQueries
         (case invalidateQueryKeys opts of
            None \<Rightarrow> [queryKey opts]
          | Some [] \<Rightarrow> [queryKey opts]
          | Some (k # ks) \<Rightarrow> k # ks)
   \<and> entries (onSettled opts qc) = entries qc
   \<and> count_list (drop (length (calls qc)) (calls (onSettled opts qc))) (InvalidateQueries key)
       = count_list (keysToInvalidate opts) key"
proof -
  have keys: "keysToInvalidate opts =
    (case invalidateQueryKeys opts of
       None \<Rightarrow> [queryKey opts] | Some [] \<Rightarrow> [queryKey opts] | Some (k # ks) \<Rightarrow> k # ks)"
    by (simp add: keysToInvalidate_def split: option.splits list.splits)
  have settled: "onSettled opts qc = qc\<lparr>calls := calls qc @ map InvalidateQueries (keysToInvalidate opts)\<rparr>"
    by (simp add: onSettled_def foldl_invalidateQueries)
  have cnt: "count_list (map InvalidateQueries xs) (InvalidateQueries key) = count_list xs key" for xs :: "'a list"
    by (induction xs) simp_all
  show ?thesis
    unfolding settled using keys cnt by simp
qed

text \<open>The second test of \<open>list-delete.test.ts\<close>: the keys \<open>items\<close> and \<open>boards\<close>.\<close>

theorem onSettled_invalidates_configured_keys_witness:
  "calls (onSettled (test_delete_options (Some [''items'', ''boards''])) empty_client)
     = [InvalidateQueries ''items'', InvalidateQueries ''boards'']
   \<and> calls (onSettled (test_delete_options None) empty_client) = [InvalidateQueries ''items'']"
  using onSettled_invalidates_configured_keys[of "test_delete_options (Some [''items'', ''boards''])" empty_client]
    onSettled_invalidates_configured_keys[of "test_delete_options None" empty_client]
  by (simp add: test_delete_options_def empty_client_def)

section \<open>The sort controller\<close>

lemma sp_getAll_Nil: "sp_getAll [] m = []"
  by (simp add: sp_getAll_def)

lemma sp_getAll_Cons:
  "sp_getAll (p # ps) m = (if fst p = m then snd p # sp_getAll ps m else sp_getAll ps m)"
  by (simp add: sp_getAll_def)

lemma sp_getAll_delete:
  "sp_getAll (sp_delete ps n) m = (if m = n then [] else sp_getAll ps m)"
  by (induction ps) (auto simp add: sp_getAll_def sp_delete_def)

lemma sp_getAll_set:
  "sp_getAll (sp_set ps n v) m = (if m = n then [v] else sp_getAll ps m)"
  by (induction ps) (auto simp add: sp_getAll_Nil sp_getAll_Cons sp_getAll_delete)

lemma sp_getAll_hd: "sp_get ps n = (case sp_getAll ps n of [] \<Rightarrow> None | v # vs \<Rightarrow> Some v)"
  by (induction ps) (auto simp add: sp_get_def sp_getAll_def)

lemma sorting_normalized:
  "normalizeSorting (sorting opts st) (allowedColumnIds opts) = sorting opts st"
  by (simp add: sorting_def Let_def normalizedDefaultSorting_def normalizeSorting_idem
        split: option.splits)

lemma sorting_allowed: "s \<in> set (sorting opts st) \<Longrightarrow> id' s \<in> set (allowedColumnIds opts)"
  by (auto simp add: sorting_def Let_def normalizedDefaultSorting_def
        dest: normalizeSorting_allowed split: option.splits if_splits)

lemma normalized_single:
  assumes "normalizeSorting v allowed = v" and "v \<noteq> []"
  obtains s where "v = [s]" and "id' s \<in> set allowed"
proof -
  from assms normalizeSorting_length[of v allowed] obtain s where v: "v = [s]"
    by (cases v) auto
  have "s \<in> set (normalizeSorting v allowed)" using assms(1) v by simp
  then have "id' s \<in> set allowed" by (rule normalizeSorting_allowed)
  with v that show ?thesis by blast
qed

lemma onSortingChange_same:
  "isSameSorting (normalizeSorting (functionalUpdate upd (sorting opts st)) (allowedColumnIds opts))
     (sorting opts st) \<Longrightarrow> onSortingChange opts upd st = st"
  by (simp add: onSortingChange_def Let_def)

lemma onSortingChange_changed:
  assumes "\<not> isSameSorting (normalizeSorting (functionalUpdate upd (sorting opts st))
                 (allowedColumnIds opts)) (sorting opts st)"
  shows "onSortingChange opts upd st =
     st\<lparr>searchParamsString :=
           sp_toString (nextParams opts
             (normalizeSorting (functionalUpdate upd (sorting opts st)) (allowedColumnIds opts))
             (new_URLSearchParams (searchParamsString st))),
        replaced := replaced st @
          [if sp_toString (nextParams opts
                (normalizeSorting (functionalUpdate upd (sorting opts st)) (allowedColumnIds opts))
                (new_URLSearchParams (searchParamsString st))) \<noteq> []
           then pathname st @ CHR ''?'' #
                sp_toString (nextParams opts
                  (normalizeSorting (functionalUpdate upd (sorting opts st)) (allowedColumnIds opts))
                  (new_URLSearchParams (searchParamsString st)))
           else pathname st]\<rparr>"
  using assms by (simp add: onSortingChange_def Let_def)

lemma same_iff_eq:
  "isSameSorting (normalizeSorting v (allowedColumnIds opts)) (sorting opts st)
     \<longleftrightarrow> normalizeSorting v (allowedColumnIds opts) = sorting opts st"
  by (rule isSameSorting_eq) (rule normalizeSorting_length sorting_length)+

lemma same_default_iff_eq:
  "isSameSorting (normalizeSorting v (allowedColumnIds opts)) (normalizedDefaultSorting opts)
     \<longleftrightarrow> normalizeSorting v (allowedColumnIds opts) = normalizedDefaultSorting opts"
  by (rule isSameSorting_eq) (rule normalizeSorting_length normalizedDefaultSorting_length)+

lemma nextParams_others:
  assumes "resolveSortParam (paramPrefix opts) \<in> S" and "resolveDirectionParam (paramPrefix opts) \<in> S"
  shows "filter (\<lambda>p. fst p \<notin> S) (nextParams opts nxt ps) = filter (\<lambda>p. fst p \<notin> S) ps"
  using assms
  by (simp add: nextParams_def Let_def filter_others_set filter_others_delete split: list.splits)

lemma nextParams_appends:
  assumes "sp_get ps (resolveSortParam (paramPrefix opts)) = None"
    and "sp_get ps (resolveDirectionParam (paramPrefix opts)) = None"
  shows "\<exists>added. nextParams opts nxt ps = ps @ added
           \<and> fst ` set added \<subseteq> {resolveSortParam (paramPrefix opts), resolveDirectionParam (paramPrefix opts)}"
proof -
  let ?s = "resolveSortParam (paramPrefix opts)"
  let ?d = "resolveDirectionParam (paramPrefix opts)"
  have sd: "?s \<noteq> ?d" by (rule resolve_params_differ)
  have after_set: "sp_get (ps @ [(?s, v)]) ?d = None" for v
    using assms(2) sd by (simp add: sp_get_def map_add_def[symmetric] split: option.splits)
  show ?thesis
  proof (cases nxt)
    case Nil
    then show ?thesis
      using assms after_set
      by (simp add: nextParams_def Let_def sp_set_absent sp_delete_absent)
  next
    case (Cons primary others)
    then show ?thesis
      using assms after_set
      by (simp add: nextParams_def Let_def sp_set_absent sp_delete_absent)
  qed
qed

lemma bytes_empty_iff: "bytes v = [] \<longleftrightarrow> v = ustr []"
proof
  assume "bytes v = []"
  then have "ustr (bytes v) = ustr []" by simp
  then show "v = ustr []" by (simp only: ustr_bytes)
next
  assume "v = ustr []"
  then show "bytes v = []" by (simp add: bytes_ustr)
qed

text \<open>
  Evaluating the parser, the serializer and the hook on the query strings of the tests.
\<close>

lemmas parse_eval =
  new_URLSearchParams_def strip_question_def parse_query_def parse_pair_def form_decode_def
  is_hex_digit_def hex_value_def char_of_def bit_Suc_0_iff

lemmas ustr_eval = bytes_ustr ustr_eq_iff utf8_lossy_ascii

lemmas write_eval =
  sp_toString_def encode_pair_def form_encode_def encode_byte_def form_safe_def hex_digit_def

lemmas hook_eval =
  sorting_def onSortingChange_def nextParams_def isSameSorting_def Let_def
  normalizedDefaultSorting_def resolveSortParam_def resolveDirectionParam_def
  SORT_NONE_SENTINEL_def sp_get_def sp_getAll_def sp_delete_def

lemmas agents_eval = agents_options_def agents_hook_def

lemmas blank_eval = blank_options_def blank_hook_def

text \<open>
  The only sortable column has the empty id and there is no default sort. The URL
  \<open>?sort=\<close> has the sort parameter present, not the sentinel, and naming that
  column, yet the read path returns the (empty) normalized default and not the single
  entry for the column.
\<close>

theorem sorting_blank_column_counterexample:
  "sp_get (new_URLSearchParams (searchParamsString (blank_hook ''?sort='')))
     (resolveSortParam (paramPrefix (blank_options None))) = Some (ustr [])
   \<and> ustr [] \<in> set (allowedColumnIds (blank_options None))
   \<and> sorting (blank_options None) (blank_hook ''?sort='') = []
   \<and> sorting (blank_options None) (blank_hook ''?sort='') \<noteq> [\<lparr>id' = ustr [], desc = False\<rparr>]"
  by (simp add: hook_eval blank_eval parse_eval ustr_eval)

text \<open>
  C5, as the code has it. The read path is defined for every query string, by these
  cases on the value of the sort parameter: absent or empty, the normalized default;
  the sentinel \<open>none\<close>, the empty sort state; a non-empty value other than the
  sentinel that is not in the allow-list, the normalized default; otherwise the single
  entry of that column, descending exactly when the direction parameter is \<open>desc\<close>.
  The normalized default is the first allow-listed entry of the default sort, and empty
  when there is none. The result has at most one entry, and its column is allow-listed.
\<close>

theorem sorting_read_path:
  "let sortValue = sp_get (new_URLSearchParams (searchParamsString st))
                     (resolveSortParam (paramPrefix opts));
       direction = sp_get (new_URLSearchParams (searchParamsString st))
                     (resolveDirectionParam (paramPrefix opts));
       allowed = set (allowedColumnIds opts);
       dflt = (case defaultSorting opts of None \<Rightarrow> [] | Some d \<Rightarrow> d)
   in (sortValue = None \<or> sortValue = Some (ustr []) \<longrightarrow>
         sorting opts st = normalizedDefaultSorting opts)
    \<and> (sortValue = Some (ustr ''none'') \<longrightarrow> sorting opts st = [])
    \<and> (\<forall>v. sortValue = Some v \<and> v \<noteq> ustr [] \<and> v \<noteq> ustr ''none'' \<and> v \<notin> allowed \<longrightarrow>
             sorting opts st = normalizedDefaultSorting opts)
    \<and> (\<forall>v. sortValue = Some v \<and> v \<noteq> ustr [] \<and> v \<noteq> ustr ''none'' \<and> v \<in> allowed \<longrightarrow>
             sorting opts st = [\<lparr>id' = v, desc = (direction = Some (ustr ''desc''))\<rparr>])
    \<and> normalizedDefaultSorting opts
        = (case filter (\<lambda>s. id' s \<in> allowed) dflt of [] \<Rightarrow> [] | s # rest \<Rightarrow> [s])
    \<and> length (sorting opts st) \<le> 1
    \<and> (\<forall>s\<in>set (sorting opts st). id' s \<in> allowed)"
proof -
  have cases: "sorting opts st =
    (case sp_get (new_URLSearchParams (searchParamsString st)) (resolveSortParam (paramPrefix opts)) of
       None \<Rightarrow> normalizedDefaultSorting opts
     | Some v \<Rightarrow>
         if v = ustr [] then normalizedDefaultSorting opts
         else if v = ustr ''none'' then []
         else if v \<notin> set (allowedColumnIds opts) then normalizedDefaultSorting opts
         else [\<lparr>id' = v,
                desc = (sp_get (new_URLSearchParams (searchParamsString st))
                          (resolveDirectionParam (paramPrefix opts)) = Some (ustr ''desc''))\<rparr>])"
    unfolding sorting_def Let_def SORT_NONE_SENTINEL_def bytes_empty_iff by (rule refl)
  have dflt: "normalizedDefaultSorting opts
        = (case filter (\<lambda>s. id' s \<in> set (allowedColumnIds opts))
                  (case defaultSorting opts of None \<Rightarrow> [] | Some d \<Rightarrow> d)
           of [] \<Rightarrow> [] | s # rest \<Rightarrow> [s])"
    unfolding normalizedDefaultSorting_def by (rule normalizeSorting_filter)
  have allowed: "\<forall>s\<in>set (sorting opts st). id' s \<in> set (allowedColumnIds opts)"
    using sorting_allowed by blast
  have branches:
    "(sp_get (new_URLSearchParams (searchParamsString st)) (resolveSortParam (paramPrefix opts)) = None
       \<or> sp_get (new_URLSearchParams (searchParamsString st)) (resolveSortParam (paramPrefix opts))
           = Some (ustr [])
       \<longrightarrow> sorting opts st = normalizedDefaultSorting opts)
     \<and> (sp_get (new_URLSearchParams (searchParamsString st)) (resolveSortParam (paramPrefix opts))
           = Some (ustr ''none'')
       \<longrightarrow> sorting opts st = [])
     \<and> (\<forall>v. sp_get (new_URLSearchParams (searchParamsString st)) (resolveSortParam (paramPrefix opts)) = Some v
            \<and> v \<noteq> ustr [] \<and> v \<noteq> ustr ''none'' \<and> v \<notin> set (allowedColumnIds opts)
          \<longrightarrow> sorting opts st = normalizedDefaultSorting opts)
     \<and> (\<forall>v. sp_get (new_URLSearchParams (searchParamsString st)) (resolveSortParam (paramPrefix opts)) = Some v
            \<and> v \<noteq> ustr [] \<and> v \<noteq> ustr ''none'' \<and> v \<in> set (allowedColumnIds opts)
          \<longrightarrow> sorting opts st =
              [\<lparr>id' = v,
                desc = (sp_get (new_URLSearchParams (searchParamsString st))
                          (resolveDirectionParam (paramPrefix opts)) = Some (ustr ''desc''))\<rparr>])"
    by (auto simp add: cases ustr_eval)
  show ?thesis
    unfolding Let_def using branches dflt sorting_length[of opts st] allowed by blast
qed

text \<open>The second test of \<open>use-url-sorting.test.tsx\<close>: \<open>?agents_sort=status&agents_dir=desc\<close>.\<close>

theorem sorting_read_path_witness:
  "sp_get (new_URLSearchParams (searchParamsString (agents_hook ''?agents_sort=status&agents_dir=desc'')))
     (resolveSortParam (paramPrefix agents_options)) = Some (ustr ''status'')
   \<and> ustr ''status'' \<in> set (allowedColumnIds agents_options)
   \<and> sorting agents_options (agents_hook ''?agents_sort=status&agents_dir=desc'')
       = [\<lparr>id' = ustr ''status'', desc = True\<rparr>]
   \<and> normalizedDefaultSorting agents_options = [\<lparr>id' = ustr ''name'', desc = False\<rparr>]"
proof -
  let ?st = "agents_hook ''?agents_sort=status&agents_dir=desc''"
  have s: "sp_get (new_URLSearchParams (searchParamsString ?st))
             (resolveSortParam (paramPrefix agents_options)) = Some (ustr ''status'')"
    by (simp add: hook_eval agents_eval parse_eval ustr_eval)
  have d: "sp_get (new_URLSearchParams (searchParamsString ?st))
             (resolveDirectionParam (paramPrefix agents_options)) = Some (ustr ''desc'')"
    by (simp add: hook_eval agents_eval parse_eval ustr_eval)
  have a: "ustr ''status'' \<in> set (allowedColumnIds agents_options)"
    by (simp add: agents_options_def)
  have n: "ustr ''status'' \<noteq> ustr []" "ustr ''status'' \<noteq> ustr ''none''"
    by (simp_all add: ustr_eval)
  have f: "filter (\<lambda>s. id' s \<in> set (allowedColumnIds agents_options))
             (case defaultSorting agents_options of None \<Rightarrow> [] | Some d \<Rightarrow> d)
           = [\<lparr>id' = ustr ''name'', desc = False\<rparr>]"
    by (simp add: agents_options_def)
  from sorting_read_path[of ?st agents_options]
  have "sorting agents_options ?st = [\<lparr>id' = ustr ''status'', desc = True\<rparr>]
        \<and> normalizedDefaultSorting agents_options = [\<lparr>id' = ustr ''name'', desc = False\<rparr>]"
    unfolding Let_def s d f using a n by simp
  with s a show ?thesis by simp
qed

text \<open>
  With the empty id as the only sortable column and the default sort descending on it,
  the URL \<open>?sort=&dir=asc\<close> names an allow-listed column and gives a direction other
  than \<open>desc\<close>, yet the read path returns the default, which is descending.
\<close>

theorem sorting_direction_counterexample:
  "sp_get (new_URLSearchParams (searchParamsString (blank_hook ''?sort=&dir=asc'')))
     (resolveSortParam (paramPrefix (blank_options (Some [\<lparr>id' = ustr [], desc = True\<rparr>]))))
     = Some (ustr [])
   \<and> ustr [] \<in> set (allowedColumnIds (blank_options (Some [\<lparr>id' = ustr [], desc = True\<rparr>])))
   \<and> sp_get (new_URLSearchParams (searchParamsString (blank_hook ''?sort=&dir=asc'')))
       (resolveDirectionParam (paramPrefix (blank_options (Some [\<lparr>id' = ustr [], desc = True\<rparr>]))))
       = Some (ustr ''asc'')
   \<and> sorting (blank_options (Some [\<lparr>id' = ustr [], desc = True\<rparr>])) (blank_hook ''?sort=&dir=asc'')
       = [\<lparr>id' = ustr [], desc = True\<rparr>]"
  by (simp add: hook_eval blank_eval parse_eval ustr_eval)

text \<open>
  C10, as the code has it. When the sort parameter names an allow-listed column other
  than the empty string and the sentinel \<open>none\<close>, the read path returns the single
  entry of that column, and the entry is descending exactly when the (first) direction
  parameter is the literal \<open>desc\<close>: any other value, or no direction parameter, gives
  ascending order.
\<close>

theorem sorting_direction:
  assumes "sp_get (new_URLSearchParams (searchParamsString st))
             (resolveSortParam (paramPrefix opts)) = Some v"
    and "v \<in> set (allowedColumnIds opts)"
    and "v \<noteq> ustr []"
    and "v \<noteq> ustr ''none''"
  shows "(sp_get (new_URLSearchParams (searchParamsString st))
            (resolveDirectionParam (paramPrefix opts)) = Some (ustr ''desc'')
          \<longrightarrow> sorting opts st = [\<lparr>id' = v, desc = True\<rparr>])
       \<and> (sp_get (new_URLSearchParams (searchParamsString st))
            (resolveDirectionParam (paramPrefix opts)) \<noteq> Some (ustr ''desc'')
          \<longrightarrow> sorting opts st = [\<lparr>id' = v, desc = False\<rparr>])"
  using assms by (simp add: sorting_def Let_def SORT_NONE_SENTINEL_def bytes_empty_iff)

text \<open>Directions \<open>DESC\<close>, \<open>descending\<close>, empty and absent on the agents table all read as ascending.\<close>

theorem sorting_direction_witness:
  "sp_get (new_URLSearchParams (searchParamsString (agents_hook ''?agents_sort=status&agents_dir=DESC'')))
     (resolveSortParam (paramPrefix agents_options)) = Some (ustr ''status'')
   \<and> ustr ''status'' \<in> set (allowedColumnIds agents_options)
   \<and> sp_get (new_URLSearchParams (searchParamsString (agents_hook ''?agents_sort=status&agents_dir=DESC'')))
       (resolveDirectionParam (paramPrefix agents_options)) = Some (ustr ''DESC'')
   \<and> sorting agents_options (agents_hook ''?agents_sort=status&agents_dir=DESC'')
       = [\<lparr>id' = ustr ''status'', desc = False\<rparr>]
   \<and> sorting agents_options (agents_hook ''?agents_sort=status&agents_dir=descending'')
       = [\<lparr>id' = ustr ''status'', desc = False\<rparr>]
   \<and> sorting agents_options (agents_hook ''?agents_sort=status&agents_dir='')
       = [\<lparr>id' = ustr ''status'', desc = False\<rparr>]
   \<and> sorting agents_options (agents_hook ''?agents_sort=status'')
       = [\<lparr>id' = ustr ''status'', desc = False\<rparr>]"
proof -
  let ?st = "agents_hook ''?agents_sort=status&agents_dir=DESC''"
  have s: "sp_get (new_URLSearchParams (searchParamsString ?st))
             (resolveSortParam (paramPrefix agents_options)) = Some (ustr ''status'')"
    by (simp add: hook_eval agents_eval parse_eval ustr_eval)
  have d: "sp_get (new_URLSearchParams (searchParamsString ?st))
             (resolveDirectionParam (paramPrefix agents_options)) = Some (ustr ''DESC'')"
    by (simp add: hook_eval agents_eval parse_eval ustr_eval)
  have a: "ustr ''status'' \<in> set (allowedColumnIds agents_options)"
    by (simp add: agents_options_def)
  have n: "ustr ''status'' \<noteq> ustr []" "ustr ''status'' \<noteq> ustr ''none''"
    "ustr ''DESC'' \<noteq> ustr ''desc''"
    by (simp_all add: ustr_eval)
  have "sorting agents_options ?st = [\<lparr>id' = ustr ''status'', desc = False\<rparr>]"
    using sorting_direction[OF s a n(1) n(2)] d n(3) by simp
  moreover have "sorting agents_options (agents_hook ''?agents_sort=status&agents_dir=descending'')
       = [\<lparr>id' = ustr ''status'', desc = False\<rparr>]"
    by (simp add: hook_eval agents_eval parse_eval ustr_eval)
  moreover have "sorting agents_options (agents_hook ''?agents_sort=status&agents_dir='')
       = [\<lparr>id' = ustr ''status'', desc = False\<rparr>]"
    by (simp add: hook_eval agents_eval parse_eval ustr_eval)
  moreover have "sorting agents_options (agents_hook ''?agents_sort=status'')
       = [\<lparr>id' = ustr ''status'', desc = False\<rparr>]"
    by (simp add: hook_eval agents_eval parse_eval ustr_eval)
  ultimately show ?thesis using s d a by simp
qed

text \<open>
  C7. Whenever the requested next state, normalized against the allow-list, equals the
  current sort state, \<open>onSortingChange\<close> returns the hook as it was: no
  \<open>router.replace\<close> call is added and the query string is the same. This is so in
  particular when the current sort state itself is requested, as a value or through an
  updater function.
\<close>

theorem onSortingChange_no_op:
  "(normalizeSorting (functionalUpdate upd (sorting opts st)) (allowedColumnIds opts)
      = sorting opts st
    \<longrightarrow> onSortingChange opts upd st = st
        \<and> replaced (onSortingChange opts upd st) = replaced st
        \<and> searchParamsString (onSortingChange opts upd st) = searchParamsString st)
   \<and> onSortingChange opts (Value (sorting opts st)) st = st
   \<and> onSortingChange opts (Fn (\<lambda>old. old)) st = st"
proof -
  have same: "onSortingChange opts u st = st"
    if "normalizeSorting (functionalUpdate u (sorting opts st)) (allowedColumnIds opts)
          = sorting opts st" for u
    using that by (intro onSortingChange_same) (simp add: isSameSorting_refl)
  have "onSortingChange opts (Value (sorting opts st)) st = st"
    by (rule same) (simp add: sorting_normalized)
  moreover have "onSortingChange opts (Fn (\<lambda>old. old)) st = st"
    by (rule same) (simp add: sorting_normalized)
  ultimately show ?thesis using same[of upd] by simp
qed

text \<open>
  The last test of \<open>use-url-sorting.test.tsx\<close>: at \<open>?agents_sort=none\<close> the sort state
  is empty, and requesting the empty state makes no navigation.
\<close>

theorem onSortingChange_no_op_witness:
  "normalizeSorting (functionalUpdate (Value []) (sorting agents_options (agents_hook ''?agents_sort=none'')))
     (allowedColumnIds agents_options)
     = sorting agents_options (agents_hook ''?agents_sort=none'')
   \<and> sorting agents_options (agents_hook ''?agents_sort=none'') = []
   \<and> onSortingChange agents_options (Value []) (agents_hook ''?agents_sort=none'')
       = \<lparr>searchParamsString = ''agents_sort=none'', pathname = ''/agents'', replaced = []\<rparr>"
proof -
  let ?st = "agents_hook ''?agents_sort=none''"
  have cur: "sorting agents_options ?st = []"
    by (simp add: hook_eval agents_eval parse_eval ustr_eval)
  then have h: "normalizeSorting (functionalUpdate (Value []) (sorting agents_options ?st))
                  (allowedColumnIds agents_options) = sorting agents_options ?st"
    by simp
  have "onSortingChange agents_options (Value []) ?st = ?st"
    using onSortingChange_no_op[of "Value []" agents_options ?st] h by blast
  moreover have "?st = \<lparr>searchParamsString = ''agents_sort=none'', pathname = ''/agents'', replaced = []\<rparr>"
    by (simp add: agents_hook_def strip_question_def)
  ultimately show ?thesis using h cur by simp
qed

lemma params_after_change:
  assumes "normalizeSorting (functionalUpdate upd (sorting opts st)) (allowedColumnIds opts)
             \<noteq> sorting opts st"
  shows "new_URLSearchParams (searchParamsString (onSortingChange opts upd st))
           = nextParams opts
               (normalizeSorting (functionalUpdate upd (sorting opts st)) (allowedColumnIds opts))
               (new_URLSearchParams (searchParamsString st))"
    and "replaced (onSortingChange opts upd st)
           = replaced st @
               [if searchParamsString (onSortingChange opts upd st) = [] then pathname st
                else pathname st @ CHR ''?'' # searchParamsString (onSortingChange opts upd st)]"
    and "pathname (onSortingChange opts upd st) = pathname st"
proof -
  have "\<not> isSameSorting (normalizeSorting (functionalUpdate upd (sorting opts st))
                 (allowedColumnIds opts)) (sorting opts st)"
    using assms by (simp add: same_iff_eq)
  note changed = onSortingChange_changed[OF this]
  show "new_URLSearchParams (searchParamsString (onSortingChange opts upd st))
           = nextParams opts
               (normalizeSorting (functionalUpdate upd (sorting opts st)) (allowedColumnIds opts))
               (new_URLSearchParams (searchParamsString st))"
    by (simp add: changed parse_toString)
  show "replaced (onSortingChange opts upd st)
           = replaced st @
               [if searchParamsString (onSortingChange opts upd st) = [] then pathname st
                else pathname st @ CHR ''?'' # searchParamsString (onSortingChange opts upd st)]"
    by (simp add: changed)
  show "pathname (onSortingChange opts upd st) = pathname st"
    by (simp add: changed)
qed

lemma nextParams_getAll:
  "nxt = [] \<Longrightarrow>
     sp_getAll (nextParams opts nxt ps) (resolveSortParam (paramPrefix opts)) = [ustr ''none'']
     \<and> sp_getAll (nextParams opts nxt ps) (resolveDirectionParam (paramPrefix opts)) = []"
  "nxt = s # rest \<Longrightarrow> isSameSorting nxt (normalizedDefaultSorting opts) \<Longrightarrow>
     sp_getAll (nextParams opts nxt ps) (resolveSortParam (paramPrefix opts)) = []
     \<and> sp_getAll (nextParams opts nxt ps) (resolveDirectionParam (paramPrefix opts)) = []"
  "nxt = s # rest \<Longrightarrow> \<not> isSameSorting nxt (normalizedDefaultSorting opts) \<Longrightarrow>
     sp_getAll (nextParams opts nxt ps) (resolveSortParam (paramPrefix opts)) = [id' s]
     \<and> sp_getAll (nextParams opts nxt ps) (resolveDirectionParam (paramPrefix opts))
         = [if desc s then ustr ''desc'' else ustr ''asc'']"
  using resolve_params_differ[of "paramPrefix opts"]
  by (auto simp add: nextParams_def Let_def sp_getAll_set sp_getAll_delete SORT_NONE_SENTINEL_def)

text \<open>
  C8, with the three cases read in the order the specification gives them (empty; else
  equal to the normalized default; else). Whenever the normalized next state differs
  from the current one, \<open>onSortingChange\<close> makes one \<open>router.replace\<close> call, to the
  path followed by \<open>?\<close> and the new query string (the bare path when that string is
  empty), and in the new query string: (a) if the next state is empty, the sort
  parameter occurs once with the value \<open>none\<close> and the direction parameter does not
  occur; (b) otherwise, if the next state equals the normalized default, neither
  parameter occurs; (c) otherwise the sort parameter occurs once with the column id and
  the direction parameter once with \<open>desc\<close> or \<open>asc\<close> according to the flag.
\<close>

theorem onSortingChange_encoding:
  assumes "nxt = normalizeSorting (functionalUpdate upd (sorting opts st)) (allowedColumnIds opts)"
    and "nxt \<noteq> sorting opts st"
  shows "let st' = onSortingChange opts upd st;
             params' = new_URLSearchParams (searchParamsString st');
             sortParam = resolveSortParam (paramPrefix opts);
             directionParam = resolveDirectionParam (paramPrefix opts)
         in (nxt = [] \<longrightarrow>
               sp_getAll params' sortParam = [ustr ''none''] \<and> sp_getAll params' directionParam = [])
          \<and> (nxt \<noteq> [] \<and> nxt = normalizedDefaultSorting opts \<longrightarrow>
               sp_getAll params' sortParam = [] \<and> sp_getAll params' directionParam = [])
          \<and> (\<forall>s. nxt = [s] \<and> nxt \<noteq> normalizedDefaultSorting opts \<longrightarrow>
               sp_getAll params' sortParam = [id' s]
               \<and> sp_getAll params' directionParam = [if desc s then ustr ''desc'' else ustr ''asc''])
          \<and> (nxt = [] \<or> (\<exists>s. nxt = [s]))
          \<and> replaced st' = replaced st @
               [if searchParamsString st' = [] then pathname st
                else pathname st @ CHR ''?'' # searchParamsString st']"
proof -
  let ?st' = "onSortingChange opts upd st"
  let ?params' = "new_URLSearchParams (searchParamsString ?st')"
  let ?s = "resolveSortParam (paramPrefix opts)"
  let ?d = "resolveDirectionParam (paramPrefix opts)"
  have differs: "normalizeSorting (functionalUpdate upd (sorting opts st)) (allowedColumnIds opts)
                   \<noteq> sorting opts st"
    using assms by simp
  have params': "?params' = nextParams opts nxt (new_URLSearchParams (searchParamsString st))"
    using params_after_change(1)[OF differs] assms(1) by simp
  have same_default: "isSameSorting nxt (normalizedDefaultSorting opts)
                        \<longleftrightarrow> nxt = normalizedDefaultSorting opts"
    unfolding assms(1) by (rule same_default_iff_eq)
  have shape: "nxt = [] \<or> (\<exists>s. nxt = [s])"
    using normalizeSorting_length[of "functionalUpdate upd (sorting opts st)" "allowedColumnIds opts"]
    unfolding assms(1)[symmetric] by (cases nxt) auto
  have a: "nxt = [] \<longrightarrow> sp_getAll ?params' ?s = [ustr ''none''] \<and> sp_getAll ?params' ?d = []"
    unfolding params' using nextParams_getAll(1) by blast
  have b: "nxt \<noteq> [] \<and> nxt = normalizedDefaultSorting opts \<longrightarrow>
             sp_getAll ?params' ?s = [] \<and> sp_getAll ?params' ?d = []"
  proof
    assume h: "nxt \<noteq> [] \<and> nxt = normalizedDefaultSorting opts"
    then have "nxt \<noteq> []" by (rule conjunct1)
    then obtain s rest where n: "nxt = s # rest" by (cases nxt) simp_all
    from h same_default have "isSameSorting nxt (normalizedDefaultSorting opts)" by blast
    from nextParams_getAll(2)[OF n this]
    show "sp_getAll ?params' ?s = [] \<and> sp_getAll ?params' ?d = []"
      unfolding params' .
  qed
  have c: "\<forall>s. nxt = [s] \<and> nxt \<noteq> normalizedDefaultSorting opts \<longrightarrow>
             sp_getAll ?params' ?s = [id' s]
             \<and> sp_getAll ?params' ?d = [if desc s then ustr ''desc'' else ustr ''asc'']"
  proof (intro allI impI)
    fix s
    assume h: "nxt = [s] \<and> nxt \<noteq> normalizedDefaultSorting opts"
    then have n: "nxt = s # []" by simp
    from h same_default have "\<not> isSameSorting nxt (normalizedDefaultSorting opts)" by blast
    from nextParams_getAll(3)[OF n this]
    show "sp_getAll ?params' ?s = [id' s]
          \<and> sp_getAll ?params' ?d = [if desc s then ustr ''desc'' else ustr ''asc'']"
      unfolding params' .
  qed
  show ?thesis
    unfolding Let_def using a b c shape params_after_change(2)[OF differs] by blast
qed

text \<open>
  The third test of \<open>use-url-sorting.test.tsx\<close>: from \<open>?foo=1\<close>, sorting by status,
  descending, navigates to \<open>/agents?foo=1&agents_sort=status&agents_dir=desc\<close>.
\<close>

theorem onSortingChange_encoding_witness:
  "[\<lparr>id' = ustr ''status'', desc = True\<rparr>]
     = normalizeSorting (functionalUpdate (Value [\<lparr>id' = ustr ''status'', desc = True\<rparr>])
                           (sorting agents_options (agents_hook ''?foo=1'')))
         (allowedColumnIds agents_options)
   \<and> [\<lparr>id' = ustr ''status'', desc = True\<rparr>] \<noteq> sorting agents_options (agents_hook ''?foo=1'')
   \<and> sp_getAll (new_URLSearchParams (searchParamsString
        (onSortingChange agents_options (Value [\<lparr>id' = ustr ''status'', desc = True\<rparr>])
           (agents_hook ''?foo=1''))))
        (ustr ''agents_sort'') = [ustr ''status'']
   \<and> sp_getAll (new_URLSearchParams (searchParamsString
        (onSortingChange agents_options (Value [\<lparr>id' = ustr ''status'', desc = True\<rparr>])
           (agents_hook ''?foo=1''))))
        (ustr ''agents_dir'') = [ustr ''desc'']
   \<and> replaced (onSortingChange agents_options (Value [\<lparr>id' = ustr ''status'', desc = True\<rparr>])
                  (agents_hook ''?foo=1''))
       = [''/agents?foo=1&agents_sort=status&agents_dir=desc'']"
proof -
  let ?nxt = "[\<lparr>id' = ustr ''status'', desc = True\<rparr>]"
  let ?st = "agents_hook ''?foo=1''"
  let ?st' = "onSortingChange agents_options (Value ?nxt) ?st"
  have h1: "?nxt = normalizeSorting (functionalUpdate (Value ?nxt) (sorting agents_options ?st))
                     (allowedColumnIds agents_options)"
    by (simp add: agents_options_def)
  have h2: "?nxt \<noteq> sorting agents_options ?st"
    by (simp add: hook_eval agents_eval blank_eval parse_eval ustr_eval write_eval)
  have nd: "?nxt \<noteq> normalizedDefaultSorting agents_options"
    by (simp add: hook_eval agents_eval blank_eval parse_eval ustr_eval write_eval)
  have r: "replaced ?st' = [''/agents?foo=1&agents_sort=status&agents_dir=desc'']"
    by (simp add: hook_eval agents_eval blank_eval parse_eval ustr_eval write_eval)
  have p: "resolveSortParam (paramPrefix agents_options) = ustr ''agents_sort''"
    "resolveDirectionParam (paramPrefix agents_options) = ustr ''agents_dir''"
    by (simp_all add: agents_options_def resolveSortParam_def resolveDirectionParam_def ustr_eval)
  from onSortingChange_encoding[OF h1 h2] nd
  have "sp_getAll (new_URLSearchParams (searchParamsString ?st')) (ustr ''agents_sort'') = [ustr ''status'']
        \<and> sp_getAll (new_URLSearchParams (searchParamsString ?st')) (ustr ''agents_dir'') = [ustr ''desc'']"
    unfolding Let_def p by simp
  with h1 h2 r show ?thesis by blast
qed


text \<open>
  With the empty id as the only sortable column and no default, the state sorting by
  that column, descending, is normalized, not empty, not the default and not the
  sentinel. Writing it from the bare URL gives \<open>sort=&dir=desc\<close>, which reads back as
  the empty state.
\<close>

theorem sorting_roundtrip_blank_counterexample:
  "normalizeSorting [\<lparr>id' = ustr [], desc = True\<rparr>] (allowedColumnIds (blank_options None))
     = [\<lparr>id' = ustr [], desc = True\<rparr>]
   \<and> [\<lparr>id' = ustr [], desc = True\<rparr>] \<noteq> normalizedDefaultSorting (blank_options None)
   \<and> searchParamsString
        (onSortingChange (blank_options None) (Value [\<lparr>id' = ustr [], desc = True\<rparr>]) (blank_hook []))
       = ''sort=&dir=desc''
   \<and> sorting (blank_options None)
        (onSortingChange (blank_options None) (Value [\<lparr>id' = ustr [], desc = True\<rparr>]) (blank_hook []))
       = []"
  by (simp add: hook_eval agents_eval blank_eval parse_eval ustr_eval write_eval)

text \<open>
  C6, as the code has it. Let \<open>S\<close> be a sort state that is normalized and not empty
  (so a single allow-listed entry), not the normalized default, and whose column id is
  neither the sentinel \<open>none\<close> nor the empty string. Requesting \<open>S\<close> through
  \<open>onSortingChange\<close>, as a value or through an updater function, from any hook state,
  and reading the sort state of the resulting hook state yields \<open>S\<close>.
\<close>

theorem sorting_roundtrip:
  assumes norm: "normalizeSorting S (allowedColumnIds opts) = S"
    and nonempty: "S \<noteq> []"
    and nondefault: "S \<noteq> normalizedDefaultSorting opts"
    and ids: "\<forall>s\<in>set S. id' s \<noteq> ustr ''none'' \<and> id' s \<noteq> ustr []"
    and request: "functionalUpdate upd (sorting opts st) = S"
  shows "sorting opts (onSortingChange opts upd st) = S"
proof (cases "S = sorting opts st")
  case True
  then have "onSortingChange opts upd st = st"
    using norm request by (intro onSortingChange_same) (simp add: isSameSorting_refl)
  with True show ?thesis by simp
next
  case False
  let ?sp = "resolveSortParam (paramPrefix opts)"
  let ?dp = "resolveDirectionParam (paramPrefix opts)"
  let ?st' = "onSortingChange opts upd st"
  from norm nonempty obtain s where S: "S = [s]" and allowed: "id' s \<in> set (allowedColumnIds opts)"
    by (rule normalized_single)
  from ids S have sentinel: "id' s \<noteq> ustr ''none''" and blank: "id' s \<noteq> ustr []" by simp_all
  have nxt: "normalizeSorting (functionalUpdate upd (sorting opts st)) (allowedColumnIds opts) = [s]"
    using norm request S by simp
  then have differs: "normalizeSorting (functionalUpdate upd (sorting opts st)) (allowedColumnIds opts)
                        \<noteq> sorting opts st"
    using False S by simp
  have "\<not> isSameSorting [s] (normalizedDefaultSorting opts)"
    using same_default_iff_eq[of "functionalUpdate upd (sorting opts st)" opts] nondefault
    unfolding nxt S by simp
  then have params': "new_URLSearchParams (searchParamsString ?st')
      = sp_set (sp_set (new_URLSearchParams (searchParamsString st)) ?sp (id' s)) ?dp
          (if desc s then ustr ''desc'' else ustr ''asc'')"
    unfolding params_after_change(1)[OF differs] nxt
    by (simp add: nextParams_def Let_def)
  have sort_value: "sp_get (new_URLSearchParams (searchParamsString ?st')) ?sp = Some (id' s)"
    unfolding params' using resolve_params_differ[of "paramPrefix opts"]
    by (simp add: sp_get_set)
  have direction: "sp_get (new_URLSearchParams (searchParamsString ?st')) ?dp
                     = Some (if desc s then ustr ''desc'' else ustr ''asc'')"
    unfolding params' by (simp add: sp_get_set)
  have "sorting opts ?st' = [\<lparr>id' = id' s, desc = desc s\<rparr>]"
    using sort_value direction allowed sentinel blank
    by (simp add: sorting_def[of opts ?st'] Let_def SORT_NONE_SENTINEL_def bytes_empty_iff ustr_eval)
  then show ?thesis using S by simp
qed

text \<open>On the agents table, from \<open>?foo=1\<close>: sorting by status, descending, reads back.\<close>

theorem sorting_roundtrip_witness:
  "normalizeSorting [\<lparr>id' = ustr ''status'', desc = True\<rparr>] (allowedColumnIds agents_options)
     = [\<lparr>id' = ustr ''status'', desc = True\<rparr>]
   \<and> [\<lparr>id' = ustr ''status'', desc = True\<rparr>] \<noteq> normalizedDefaultSorting agents_options
   \<and> sorting agents_options
        (onSortingChange agents_options (Value [\<lparr>id' = ustr ''status'', desc = True\<rparr>])
           (agents_hook ''?foo=1''))
       = [\<lparr>id' = ustr ''status'', desc = True\<rparr>]"
proof -
  let ?S = "[\<lparr>id' = ustr ''status'', desc = True\<rparr>]"
  have norm: "normalizeSorting ?S (allowedColumnIds agents_options) = ?S"
    by (simp add: agents_options_def)
  have nonempty: "?S \<noteq> []" by simp
  have nondefault: "?S \<noteq> normalizedDefaultSorting agents_options"
    by (simp add: agents_options_def normalizedDefaultSorting_def ustr_eval)
  have ids: "\<forall>s\<in>set ?S. id' s \<noteq> ustr ''none'' \<and> id' s \<noteq> ustr []" by (simp add: ustr_eval)
  have request: "functionalUpdate (Value ?S) (sorting agents_options (agents_hook ''?foo=1'')) = ?S"
    by simp
  from sorting_roundtrip[OF norm nonempty nondefault ids request] norm nondefault
  show ?thesis by blast
qed

lemma sp_get_None_iff: "sp_get ps n = None \<longleftrightarrow> n \<notin> fst ` set ps"
  by (simp add: sp_get_def map_of_eq_None_iff)

lemma names_sp_delete: "fst ` set (sp_delete ps n) = fst ` set ps - {n}"
  by (auto simp add: sp_delete_def)

lemma names_sp_set: "fst ` set (sp_set ps n v) = insert n (fst ` set ps)"
  by (induction ps) (auto simp add: names_sp_delete)

lemma sp_delete_append: "sp_delete (ps @ qs) n = sp_delete ps n @ sp_delete qs n"
  by (simp add: sp_delete_def)

lemma sp_set_append_present:
  "n \<in> fst ` set ps \<Longrightarrow> sp_set (ps @ qs) n v = sp_set ps n v @ sp_delete qs n"
  by (induction ps) (auto simp add: sp_delete_append)

lemma sp_set_new: "n \<notin> fst ` set ps \<Longrightarrow> sp_set ps n v = ps @ [(n, v)]"
  by (rule sp_set_absent) (simp add: sp_get_None_iff)

lemma others_set:
  "filter (\<lambda>p. fst p \<notin> {s, d}) (sp_set ps s v) = filter (\<lambda>p. fst p \<notin> {s, d}) ps"
  "filter (\<lambda>p. fst p \<notin> {s, d}) (sp_set ps d v) = filter (\<lambda>p. fst p \<notin> {s, d}) ps"
  by (rule filter_others_set, simp)+

lemma others_delete:
  "filter (\<lambda>p. fst p \<notin> {s, d}) (sp_delete ps s) = filter (\<lambda>p. fst p \<notin> {s, d}) ps"
  "filter (\<lambda>p. fst p \<notin> {s, d}) (sp_delete ps d) = filter (\<lambda>p. fst p \<notin> {s, d}) ps"
  by (rule filter_others_delete, simp)+

lemma existing_first_set_set:
  assumes sd: "s \<noteq> d"
  shows "\<exists>kept added. sp_set (sp_set ps s v) d w = kept @ added
           \<and> filter (\<lambda>p. fst p \<notin> {s, d}) kept = filter (\<lambda>p. fst p \<notin> {s, d}) ps
           \<and> fst ` set kept \<subseteq> fst ` set ps
           \<and> fst ` set added \<subseteq> {s, d} - fst ` set ps"
proof -
  consider (both) "s \<in> fst ` set ps" "d \<in> fst ` set ps"
    | (sort) "s \<in> fst ` set ps" "d \<notin> fst ` set ps"
    | (dir) "s \<notin> fst ` set ps" "d \<in> fst ` set ps"
    | (none) "s \<notin> fst ` set ps" "d \<notin> fst ` set ps"
    by blast
  then show ?thesis
  proof cases
    case both
    have "sp_set (sp_set ps s v) d w = sp_set (sp_set ps s v) d w @ []" by simp
    moreover have "filter (\<lambda>p. fst p \<notin> {s, d}) (sp_set (sp_set ps s v) d w)
                     = filter (\<lambda>p. fst p \<notin> {s, d}) ps"
      by (simp only: others_set)
    moreover have "fst ` set (sp_set (sp_set ps s v) d w) \<subseteq> fst ` set ps"
      using both by (simp add: names_sp_set)
    ultimately show ?thesis by (metis empty_set image_empty empty_subsetI)
  next
    case sort
    have "d \<notin> fst ` set (sp_set ps s v)" using sort sd by (simp add: names_sp_set)
    then have "sp_set (sp_set ps s v) d w = sp_set ps s v @ [(d, w)]" by (rule sp_set_new)
    moreover have "filter (\<lambda>p. fst p \<notin> {s, d}) (sp_set ps s v) = filter (\<lambda>p. fst p \<notin> {s, d}) ps"
      by (simp only: others_set)
    moreover have "fst ` set (sp_set ps s v) \<subseteq> fst ` set ps"
      using sort by (simp add: names_sp_set)
    moreover have "fst ` set [(d, w)] \<subseteq> {s, d} - fst ` set ps" using sort by simp
    ultimately show ?thesis by blast
  next
    case dir
    have "sp_set (sp_set ps s v) d w = sp_set (ps @ [(s, v)]) d w"
      using dir by (simp add: sp_set_new)
    also have "\<dots> = sp_set ps d w @ [(s, v)]"
      using dir sd by (simp add: sp_set_append_present sp_delete_def)
    finally have "sp_set (sp_set ps s v) d w = sp_set ps d w @ [(s, v)]" .
    moreover have "filter (\<lambda>p. fst p \<notin> {s, d}) (sp_set ps d w) = filter (\<lambda>p. fst p \<notin> {s, d}) ps"
      by (simp only: others_set)
    moreover have "fst ` set (sp_set ps d w) \<subseteq> fst ` set ps"
      using dir by (simp add: names_sp_set)
    moreover have "fst ` set [(s, v)] \<subseteq> {s, d} - fst ` set ps" using dir by simp
    ultimately show ?thesis by blast
  next
    case none
    have "sp_set (sp_set ps s v) d w = ps @ [(s, v), (d, w)]"
      using none sd by (simp add: sp_set_new names_sp_set)
    moreover have "fst ` set [(s, v), (d, w)] \<subseteq> {s, d} - fst ` set ps" using none by simp
    ultimately show ?thesis by blast
  qed
qed

lemma existing_first_set_delete:
  assumes sd: "s \<noteq> d"
  shows "\<exists>kept added. sp_delete (sp_set ps s v) d = kept @ added
           \<and> filter (\<lambda>p. fst p \<notin> {s, d}) kept = filter (\<lambda>p. fst p \<notin> {s, d}) ps
           \<and> fst ` set kept \<subseteq> fst ` set ps
           \<and> fst ` set added \<subseteq> {s, d} - fst ` set ps"
proof (cases "s \<in> fst ` set ps")
  case True
  have "sp_delete (sp_set ps s v) d = sp_delete (sp_set ps s v) d @ []" by simp
  moreover have "filter (\<lambda>p. fst p \<notin> {s, d}) (sp_delete (sp_set ps s v) d)
                   = filter (\<lambda>p. fst p \<notin> {s, d}) ps"
    by (simp only: others_set others_delete)
  moreover have "fst ` set (sp_delete (sp_set ps s v) d) \<subseteq> fst ` set ps"
    using True by (auto simp add: names_sp_set names_sp_delete)
  ultimately show ?thesis by (metis empty_set image_empty empty_subsetI)
next
  case False
  then have "sp_delete (sp_set ps s v) d = sp_delete ps d @ [(s, v)]"
    using sd by (simp add: sp_set_new sp_delete_append) (simp add: sp_delete_def)
  moreover have "filter (\<lambda>p. fst p \<notin> {s, d}) (sp_delete ps d) = filter (\<lambda>p. fst p \<notin> {s, d}) ps"
    by (simp only: others_delete)
  moreover have "fst ` set (sp_delete ps d) \<subseteq> fst ` set ps"
    by (auto simp add: names_sp_delete)
  moreover have "fst ` set [(s, v)] \<subseteq> {s, d} - fst ` set ps" using False by simp
  ultimately show ?thesis by blast
qed

lemma existing_first_delete_delete:
  "\<exists>kept added. sp_delete (sp_delete ps s) d = kept @ added
           \<and> filter (\<lambda>p. fst p \<notin> {s, d}) kept = filter (\<lambda>p. fst p \<notin> {s, d}) ps
           \<and> fst ` set kept \<subseteq> fst ` set ps
           \<and> fst ` set added \<subseteq> {s, d} - fst ` set ps"
proof -
  have "sp_delete (sp_delete ps s) d = sp_delete (sp_delete ps s) d @ []" by simp
  moreover have "filter (\<lambda>p. fst p \<notin> {s, d}) (sp_delete (sp_delete ps s) d)
                   = filter (\<lambda>p. fst p \<notin> {s, d}) ps"
    by (simp only: others_delete)
  moreover have "fst ` set (sp_delete (sp_delete ps s) d) \<subseteq> fst ` set ps"
    by (auto simp add: names_sp_delete)
  ultimately show ?thesis by (metis empty_set image_empty empty_subsetI)
qed

lemma nextParams_existing_first:
  "\<exists>kept added. nextParams opts nxt ps = kept @ added
     \<and> filter (\<lambda>p. fst p \<notin> {resolveSortParam (paramPrefix opts), resolveDirectionParam (paramPrefix opts)}) kept
         = filter (\<lambda>p. fst p \<notin> {resolveSortParam (paramPrefix opts), resolveDirectionParam (paramPrefix opts)}) ps
     \<and> fst ` set kept \<subseteq> fst ` set ps
     \<and> fst ` set added
         \<subseteq> {resolveSortParam (paramPrefix opts), resolveDirectionParam (paramPrefix opts)} - fst ` set ps"
  using existing_first_set_set[OF resolve_params_differ]
    existing_first_set_delete[OF resolve_params_differ]
    existing_first_delete_delete
  by (simp add: nextParams_def Let_def split: list.splits)

text \<open>
  From \<open>?q=a%20b\<close>, sorting by status, descending, writes the unrelated parameter as
  \<open>q=a+b\<close>: its name and value are the same, its bytes in the URL are not. Likewise
  a bare \<open>flag\<close> is written \<open>flag=\<close>, and the ill-formed escape \<open>%FF\<close>, which
  reads as U+FFFD, is written \<open>%EF%BF%BD\<close>.
\<close>

theorem onSortingChange_rewrites_text_counterexample:
  "searchParamsString (agents_hook ''?q=a%20b'') = ''q=a%20b''
   \<and> searchParamsString
        (onSortingChange agents_options (Value [\<lparr>id' = ustr ''status'', desc = True\<rparr>])
           (agents_hook ''?q=a%20b''))
       = ''q=a+b&agents_sort=status&agents_dir=desc''
   \<and> searchParamsString
        (onSortingChange agents_options (Value [\<lparr>id' = ustr ''status'', desc = True\<rparr>])
           (agents_hook ''?flag''))
       = ''flag=&agents_sort=status&agents_dir=desc''
   \<and> searchParamsString
        (onSortingChange agents_options (Value [\<lparr>id' = ustr ''status'', desc = True\<rparr>])
           (agents_hook ''?q=%FF''))
       = ''q=%EF%BF%BD&agents_sort=status&agents_dir=desc''"
proof -
  have "searchParamsString
        (onSortingChange agents_options (Value [\<lparr>id' = ustr ''status'', desc = True\<rparr>])
           (agents_hook ''?q=%FF''))
       = ''q=%EF%BF%BD&agents_sort=status&agents_dir=desc''"
    by (simp add: hook_eval agents_eval parse_eval ustr_eval write_eval utf8_lossy.simps(2)
          utf8_step_def bytes_needed_def lower_boundary_def upper_boundary_def continuation_pos
          replacement_def)
  moreover have "searchParamsString
        (onSortingChange agents_options (Value [\<lparr>id' = ustr ''status'', desc = True\<rparr>])
           (agents_hook ''?q=a%20b''))
       = ''q=a+b&agents_sort=status&agents_dir=desc''"
    by (simp add: hook_eval agents_eval parse_eval ustr_eval write_eval)
  moreover have "searchParamsString
        (onSortingChange agents_options (Value [\<lparr>id' = ustr ''status'', desc = True\<rparr>])
           (agents_hook ''?flag''))
       = ''flag=&agents_sort=status&agents_dir=desc''"
    by (simp add: hook_eval agents_eval parse_eval ustr_eval write_eval)
  moreover have "searchParamsString (agents_hook ''?q=a%20b'') = ''q=a%20b''"
    by (simp add: agents_hook_def strip_question_def)
  ultimately show ?thesis by simp
qed

text \<open>
  C9, as the code has it. A call of \<open>onSortingChange\<close> never changes the path, and each
  navigation it makes goes to the unchanged path followed by the new query string. The
  parameters of the new query string whose name is neither the sort nor the direction
  parameter are those of the old one as \<open>URLSearchParams\<close> reads them: the same decoded
  names and values, as often and in the same order. The existing parameters come first:
  the new list of parameters is a list \<open>kept\<close>, holding those other parameters and only
  names the old list had, followed by a list \<open>added\<close> of the controller's own
  parameters that the old list did not have; when the old query string has neither of
  the controller's parameters, \<open>kept\<close> is the old list itself. The text of the
  parameters is not kept byte for byte: the new query string is the serialization of
  the new list, each pair in the serializer's form, which is the text the pair had only
  if the old query string was a serialization too.
\<close>

theorem onSortingChange_frame:
  "let st' = onSortingChange opts upd st;
       sortParam = resolveSortParam (paramPrefix opts);
       directionParam = resolveDirectionParam (paramPrefix opts);
       params = new_URLSearchParams (searchParamsString st);
       params' = new_URLSearchParams (searchParamsString st')
   in pathname st' = pathname st
    \<and> filter (\<lambda>p. fst p \<notin> {sortParam, directionParam}) params'
        = filter (\<lambda>p. fst p \<notin> {sortParam, directionParam}) params
    \<and> (st' = st
        \<or> replaced st' = replaced st @
             [if searchParamsString st' = [] then pathname st
              else pathname st @ CHR ''?'' # searchParamsString st']
          \<and> searchParamsString st' = sp_toString params')
    \<and> (\<exists>kept added. params' = kept @ added
          \<and> filter (\<lambda>p. fst p \<notin> {sortParam, directionParam}) kept
              = filter (\<lambda>p. fst p \<notin> {sortParam, directionParam}) params
          \<and> fst ` set kept \<subseteq> fst ` set params
          \<and> fst ` set added \<subseteq> {sortParam, directionParam} - fst ` set params)
    \<and> (sp_get params sortParam = None \<and> sp_get params directionParam = None \<longrightarrow>
         (\<exists>added. params' = params @ added \<and> fst ` set added \<subseteq> {sortParam, directionParam}))
    \<and> (\<forall>ps. searchParamsString st = sp_toString ps \<longrightarrow> params = ps)"
proof (cases "normalizeSorting (functionalUpdate upd (sorting opts st)) (allowedColumnIds opts)
                = sorting opts st")
  case True
  let ?sp = "resolveSortParam (paramPrefix opts)"
  let ?dp = "resolveDirectionParam (paramPrefix opts)"
  let ?params = "new_URLSearchParams (searchParamsString st)"
  from True have same: "onSortingChange opts upd st = st"
    by (intro onSortingChange_same) (simp add: isSameSorting_refl)
  have "?params = ?params @ []
        \<and> filter (\<lambda>p. fst p \<notin> {?sp, ?dp}) ?params = filter (\<lambda>p. fst p \<notin> {?sp, ?dp}) ?params
        \<and> fst ` set ?params \<subseteq> fst ` set ?params
        \<and> fst ` set [] \<subseteq> {?sp, ?dp} - fst ` set ?params"
    by simp
  then have first: "\<exists>kept added. ?params = kept @ added
        \<and> filter (\<lambda>p. fst p \<notin> {?sp, ?dp}) kept = filter (\<lambda>p. fst p \<notin> {?sp, ?dp}) ?params
        \<and> fst ` set kept \<subseteq> fst ` set ?params
        \<and> fst ` set added \<subseteq> {?sp, ?dp} - fst ` set ?params"
    by (intro exI[of _ ?params] exI[of _ "[]"])
  have appended: "sp_get ?params ?sp = None \<and> sp_get ?params ?dp = None \<longrightarrow>
         (\<exists>added. ?params = ?params @ added \<and> fst ` set added \<subseteq> {?sp, ?dp})"
    by simp
  have canonical: "\<forall>ps. searchParamsString st = sp_toString ps \<longrightarrow> ?params = ps"
    by (simp add: parse_toString)
  show ?thesis
    unfolding Let_def same
    by (intro conjI)
      (rule refl, rule refl, rule disjI1, rule refl, rule first, rule appended, rule canonical)
next
  case False
  let ?nxt = "normalizeSorting (functionalUpdate upd (sorting opts st)) (allowedColumnIds opts)"
  let ?sp = "resolveSortParam (paramPrefix opts)"
  let ?dp = "resolveDirectionParam (paramPrefix opts)"
  let ?params = "new_URLSearchParams (searchParamsString st)"
  let ?st' = "onSortingChange opts upd st"
  note after = params_after_change[OF False]
  have others: "filter (\<lambda>p. fst p \<notin> {?sp, ?dp}) (new_URLSearchParams (searchParamsString ?st'))
                  = filter (\<lambda>p. fst p \<notin> {?sp, ?dp}) ?params"
    unfolding after(1) by (rule nextParams_others) simp_all
  have written: "searchParamsString ?st' = sp_toString (new_URLSearchParams (searchParamsString ?st'))"
  proof -
    have "\<not> isSameSorting ?nxt (sorting opts st)"
      using False by (simp add: same_iff_eq)
    then have "searchParamsString ?st' = sp_toString (nextParams opts ?nxt ?params)"
      by (simp add: onSortingChange_changed)
    then show ?thesis by (simp add: parse_toString)
  qed
  have first: "\<exists>kept added. new_URLSearchParams (searchParamsString ?st') = kept @ added
        \<and> filter (\<lambda>p. fst p \<notin> {?sp, ?dp}) kept = filter (\<lambda>p. fst p \<notin> {?sp, ?dp}) ?params
        \<and> fst ` set kept \<subseteq> fst ` set ?params
        \<and> fst ` set added \<subseteq> {?sp, ?dp} - fst ` set ?params"
    unfolding after(1) by (rule nextParams_existing_first)
  have appended: "sp_get ?params ?sp = None \<and> sp_get ?params ?dp = None \<longrightarrow>
         (\<exists>added. new_URLSearchParams (searchParamsString ?st') = ?params @ added
                   \<and> fst ` set added \<subseteq> {?sp, ?dp})"
    unfolding after(1) using nextParams_appends by blast
  have nav: "?st' = st
        \<or> replaced ?st' = replaced st @
             [if searchParamsString ?st' = [] then pathname st
              else pathname st @ CHR ''?'' # searchParamsString ?st']
          \<and> searchParamsString ?st' = sp_toString (new_URLSearchParams (searchParamsString ?st'))"
    using after(2) written by blast
  have canonical: "\<forall>ps. searchParamsString st = sp_toString ps \<longrightarrow> ?params = ps"
    by (simp add: parse_toString)
  show ?thesis
    unfolding Let_def
    by (intro conjI)
      (rule after(3), rule others, rule nav, rule first, rule appended, rule canonical)
qed

text \<open>
  The third test of \<open>use-url-sorting.test.tsx\<close>: \<open>foo=1\<close> survives and comes first,
  here with its text, which is in the serializer's form. The parameter written
  \<open>a%20b\<close> keeps its value.
\<close>

theorem onSortingChange_frame_witness:
  "sp_get (new_URLSearchParams (searchParamsString (agents_hook ''?foo=1'')))
      (resolveSortParam (paramPrefix agents_options)) = None
   \<and> sp_get (new_URLSearchParams (searchParamsString (agents_hook ''?foo=1'')))
      (resolveDirectionParam (paramPrefix agents_options)) = None
   \<and> searchParamsString (agents_hook ''?foo=1'') = sp_toString [(ustr ''foo'', ustr ''1'')]
   \<and> pathname (onSortingChange agents_options (Value [\<lparr>id' = ustr ''status'', desc = True\<rparr>])
                  (agents_hook ''?foo=1'')) = ''/agents''
   \<and> filter (\<lambda>p. fst p \<notin> {ustr ''agents_sort'', ustr ''agents_dir''})
        (new_URLSearchParams (searchParamsString
           (onSortingChange agents_options (Value [\<lparr>id' = ustr ''status'', desc = True\<rparr>])
              (agents_hook ''?foo=1''))))
       = [(ustr ''foo'', ustr ''1'')]
   \<and> onSortingChange agents_options (Value [\<lparr>id' = ustr ''status'', desc = True\<rparr>])
        (agents_hook ''?foo=1'')
       = \<lparr>searchParamsString = ''foo=1&agents_sort=status&agents_dir=desc'',
          pathname = ''/agents'',
          replaced = [''/agents?foo=1&agents_sort=status&agents_dir=desc'']\<rparr>
   \<and> new_URLSearchParams (searchParamsString
        (onSortingChange agents_options (Value [\<lparr>id' = ustr ''status'', desc = True\<rparr>])
           (agents_hook ''?q=a%20b'')))
       = [(ustr ''q'', ustr ''a b''), (ustr ''agents_sort'', ustr ''status''),
          (ustr ''agents_dir'', ustr ''desc'')]"
proof -
  let ?upd = "Value [\<lparr>id' = ustr ''status'', desc = True\<rparr>]"
  let ?st = "agents_hook ''?foo=1''"
  have p: "resolveSortParam (paramPrefix agents_options) = ustr ''agents_sort''"
    "resolveDirectionParam (paramPrefix agents_options) = ustr ''agents_dir''"
    by (simp_all add: agents_options_def resolveSortParam_def resolveDirectionParam_def ustr_eval)
  have old: "new_URLSearchParams (searchParamsString ?st) = [(ustr ''foo'', ustr ''1'')]"
    by (simp add: agents_eval parse_eval)
  have h: "sp_get (new_URLSearchParams (searchParamsString ?st)) (ustr ''agents_sort'') = None"
    "sp_get (new_URLSearchParams (searchParamsString ?st)) (ustr ''agents_dir'') = None"
    unfolding old by (simp_all add: sp_get_def ustr_eval)
  have written: "searchParamsString ?st = sp_toString [(ustr ''foo'', ustr ''1'')]"
    by (simp add: agents_eval strip_question_def write_eval ustr_eval)
  note fr = onSortingChange_frame[of agents_options ?upd ?st, unfolded Let_def p old]
  from fr[THEN conjunct1] fr[THEN conjunct2, THEN conjunct1]
  have "pathname (onSortingChange agents_options ?upd ?st) = pathname ?st
        \<and> filter (\<lambda>p. fst p \<notin> {ustr ''agents_sort'', ustr ''agents_dir''})
             (new_URLSearchParams (searchParamsString (onSortingChange agents_options ?upd ?st)))
            = filter (\<lambda>p. fst p \<notin> {ustr ''agents_sort'', ustr ''agents_dir''})
                [(ustr ''foo'', ustr ''1'')]"
    by (rule conjI)
  then have frame: "pathname (onSortingChange agents_options ?upd ?st) = ''/agents''
        \<and> filter (\<lambda>p. fst p \<notin> {ustr ''agents_sort'', ustr ''agents_dir''})
             (new_URLSearchParams (searchParamsString (onSortingChange agents_options ?upd ?st)))
            = [(ustr ''foo'', ustr ''1'')]"
    by (simp add: agents_hook_def ustr_eval)
  have full: "onSortingChange agents_options ?upd ?st
       = \<lparr>searchParamsString = ''foo=1&agents_sort=status&agents_dir=desc'',
          pathname = ''/agents'',
          replaced = [''/agents?foo=1&agents_sort=status&agents_dir=desc'']\<rparr>"
    by (simp add: hook_eval agents_eval parse_eval ustr_eval write_eval)
  have enc: "new_URLSearchParams (searchParamsString
        (onSortingChange agents_options ?upd (agents_hook ''?q=a%20b'')))
       = [(ustr ''q'', ustr ''a b''), (ustr ''agents_sort'', ustr ''status''),
          (ustr ''agents_dir'', ustr ''desc'')]"
    by (simp add: hook_eval agents_eval parse_eval ustr_eval write_eval)
  show ?thesis
    unfolding p using h written frame full enc by blast
qed

end
